theory Spec2Isabelle
  imports Complex_Main "HOL-Library.Word" "HOL-Library.Monad_Syntax" "HOL-Library.Log_Nat"
begin

unbundle bit_operations_syntax

section \<open>The voice pipeline of ChatInterface.jsx\<close>

text \<open>
  The development embeds the voice helpers of \<^verbatim>\<open>src/pages/ChatInterface.jsx\<close>:
  \<^verbatim>\<open>convertFloat32ToInt16\<close>, \<^verbatim>\<open>downsampleBuffer\<close>, \<^verbatim>\<open>encodeWAV\<close>,
  \<^verbatim>\<open>startVoiceRecording\<close> and \<^verbatim>\<open>stopVoiceRecording\<close>.

  Conventions of the embedding:
  \<^item> an \<^verbatim>\<open>Int16Array\<close> is a list of 16-bit words, read as signed with \<open>sint\<close>; a
    store into it is \<open>word_of_int\<close> of the truncated number (ToInt16);
  \<^item> a finite JavaScript number is the rational number that its double holds; in
    \<open>downsampleBuffer\<close> every division and multiplication of the source is followed
    by \<open>round64\<close>, the rounding to the nearest double. \<^verbatim>\<open>NaN\<close>, where the code can
    produce it (\<^verbatim>\<open>0 / 0\<close>, a read past the end of an array), is the value \<open>None\<close>;
  \<^item> sample rates are natural numbers of Hz, array lengths and indices are natural
    numbers, all below \<open>2 ^ 53\<close>, so that a double holds each of them exactly; sums
    of samples stay below \<open>2 ^ 53\<close> as well and are exact;
  \<^item> \<^verbatim>\<open>console.error\<close> lines are returned next to the result.
\<close>

subsection \<open>Numbers and typed arrays\<close>

type_synonym int16 = "16 word"
type_synonym byte = "8 word"

text \<open>\<^verbatim>\<open>Math.round\<close>: the nearest integer, a tie going up.\<close>

definition Math_round :: "rat \<Rightarrow> int" where
  "Math_round x = \<lfloor>x + 1 / 2\<rfloor>"

text \<open>ToInt16 on a finite number starts by dropping the fraction, towards zero.\<close>

definition jsTrunc :: "rat \<Rightarrow> int" where
  "jsTrunc x = (if x < 0 then \<lceil>x\<rceil> else \<lfloor>x\<rfloor>)"

text \<open>\<^verbatim>\<open>buffer[i]\<close> on a typed array: \<^verbatim>\<open>undefined\<close> past the end.\<close>

definition typedArrayGet :: "int16 list \<Rightarrow> nat \<Rightarrow> int16 option" where
  "typedArrayGet buffer i = (if i < length buffer then Some (buffer ! i) else None)"

text \<open>\<^verbatim>\<open>accum += buffer[i]\<close>: adding \<^verbatim>\<open>undefined\<close>, or adding to \<^verbatim>\<open>NaN\<close>, gives \<^verbatim>\<open>NaN\<close>.\<close>

fun accumAdd :: "int option \<Rightarrow> int16 option \<Rightarrow> int option" where
  "accumAdd (Some a) (Some v) = Some (a + sint v)"
| "accumAdd _ _ = None"

subsection \<open>Double precision\<close>

text \<open>
  The result of an arithmetic operation on doubles is the exact result rounded to the
  nearest double, a tie going to the double with the even significand. A double other
  than 0 is \<open>m * 2 ^ e\<close> with a significand \<open>m\<close> of 53 bits; \<open>binade x\<close> is the
  exponent \<open>e\<close> with \<open>2 ^ e \<le> x < 2 ^ (e + 1)\<close>, found from the bit lengths of the
  numerator and the denominator of \<open>x\<close>, and the doubles around \<open>x\<close> are
  \<open>2 ^ (e - 52)\<close> apart. The range of the exponent is not bounded here: no operation
  of \<open>downsampleBuffer\<close> on rates and lengths below \<open>2 ^ 53\<close> overflows, or gives a
  number other than 0 below the normal doubles.
\<close>

definition roundHalfEven :: "rat \<Rightarrow> int" where
  "roundHalfEven y =
     (let f = \<lfloor>y\<rfloor>; d = y - of_int f
      in if d < 1 / 2 then f else if 1 / 2 < d then f + 1 else if even f then f else f + 1)"

definition binade :: "rat \<Rightarrow> int" where
  "binade x =
     (let (p, q) = quotient_of x; d = bitlen p - bitlen q
      in if 2 powi d \<le> x then d else d - 1)"

definition round64 :: "rat \<Rightarrow> rat" where
  "round64 x =
     (if x = 0 then 0
      else let ulp = 2 powi (binade \<bar>x\<bar> - 52)
           in of_int (roundHalfEven (x / ulp)) * ulp)"

subsection \<open>downsampleBuffer\<close>

text \<open>
  The inner loop
  \<^verbatim>\<open>for (let i = offsetBuffer; i < nextOffsetBuffer && i < buffer.length; i++)
     { accum += buffer[i]; count++; }\<close>
  on the pair \<open>(accum, count)\<close>.
\<close>

function sumBlock :: "int16 list \<Rightarrow> nat \<Rightarrow> nat \<Rightarrow> int option \<times> nat \<Rightarrow> int option \<times> nat" where
  "sumBlock buffer nextOffsetBuffer i (accum, count) =
     (if i < nextOffsetBuffer \<and> i < length buffer
      then sumBlock buffer nextOffsetBuffer (i + 1)
             (accumAdd accum (typedArrayGet buffer i), count + 1)
      else (accum, count))"
  by pat_completeness auto
termination
  by (relation "measure (\<lambda>(buffer, nextOffsetBuffer, i, s). nextOffsetBuffer - i)") auto

text \<open>
  \<^verbatim>\<open>Math.min(32767, Math.max(-32768, Math.round((accum / count) * 32767)))\<close>
  stored into the \<^verbatim>\<open>Int16Array\<close>; the quotient and the product are rounded to
  doubles. With \<open>count = 0\<close> the quotient is
  \<^verbatim>\<open>0 / 0 = NaN\<close>, which \<^verbatim>\<open>Math.round\<close>, \<^verbatim>\<open>Math.max\<close> and \<^verbatim>\<open>Math.min\<close> pass on
  and the store turns into 0, or an infinity with the sign of \<open>accum\<close>, which the
  clamp turns into its bound.
\<close>

fun blockSample :: "int option \<times> nat \<Rightarrow> int16" where
  "blockSample (Some accum, count) =
     (if count = 0 then
        (if accum = 0 then 0 else if 0 < accum then 32767 else word_of_int (- 32768))
      else word_of_int
             (min 32767 (max (- 32768)
                (Math_round (round64 (round64 (of_int accum / of_nat count) * 32767))))))"
| "blockSample (None, count) = 0"

text \<open>
  The outer loop \<^verbatim>\<open>while (offsetResult < result.length)\<close>, with
  \<^verbatim>\<open>Math.round((offsetResult + 1) * sampleRateRatio)\<close> on the rounded product.
  \<^verbatim>\<open>Math.round\<close> of a non-negative number is non-negative, so \<open>nextOffsetBuffer\<close> is
  a natural number.
\<close>

function downsampleLoop ::
  "int16 list \<Rightarrow> rat \<Rightarrow> int16 list \<Rightarrow> nat \<Rightarrow> nat \<Rightarrow> int16 list" where
  "downsampleLoop buffer sampleRateRatio result offsetResult offsetBuffer =
     (if offsetResult < length result then
        let nextOffsetBuffer =
              nat (Math_round (round64 (of_nat (offsetResult + 1) * sampleRateRatio)))
        in downsampleLoop buffer sampleRateRatio
             (result[offsetResult :=
                blockSample (sumBlock buffer nextOffsetBuffer offsetBuffer (Some 0, 0))])
             (offsetResult + 1) nextOffsetBuffer
      else result)"
  by pat_completeness auto
termination
  by (relation "measure (\<lambda>(buffer, r, result, offsetResult, offsetBuffer).
                  length result - offsetResult)") auto

text \<open>
  \<^verbatim>\<open>downsampleBuffer(buffer, sampleRate, outSampleRate)\<close>. The first component of the
  result holds the lines written with \<^verbatim>\<open>console.error\<close>. The ratio and the quotient
  \<^verbatim>\<open>buffer.length / sampleRateRatio\<close> are rounded to doubles. When \<open>outSampleRate = 0\<close>
  JavaScript has \<^verbatim>\<open>sampleRateRatio = Infinity\<close> and \<^verbatim>\<open>buffer.length / Infinity = 0\<close>;
  division by zero in HOL gives the same \<open>newLength = 0\<close>, and the loop body, the only
  other place where the ratio is used, does not run. The allocation
  \<^verbatim>\<open>new Int16Array(newLength)\<close> is taken to succeed.
\<close>

definition downsampleBuffer :: "int16 list \<Rightarrow> nat \<Rightarrow> nat \<Rightarrow> string list \<times> int16 list" where
  "downsampleBuffer buffer sampleRate outSampleRate =
     (if outSampleRate = sampleRate then ([], buffer)
      else if outSampleRate > sampleRate then
        ([''Downsampling rate should be smaller than original sample rate''], buffer)
      else
        let sampleRateRatio = round64 (of_nat sampleRate / of_nat outSampleRate);
            newLength = nat (Math_round (round64 (of_nat (length buffer) / sampleRateRatio)));
            result = replicate newLength 0
        in ([], downsampleLoop buffer sampleRateRatio result 0 0))"

text \<open>
  The loops are unfolded by hand in the proofs, never by the simplifier.
\<close>

declare sumBlock.simps [simp del] downsampleLoop.simps [simp del]

text \<open>
  For stating properties of the loop: the value of \<open>offsetBuffer\<close> when the loop
  reaches output index \<open>k\<close>, and the pair \<open>(accum, count)\<close> that the inner loop
  leaves for that index.
\<close>

definition offsetAt :: "rat \<Rightarrow> nat \<Rightarrow> nat" where
  "offsetAt sampleRateRatio k = nat (Math_round (round64 (of_nat k * sampleRateRatio)))"

definition blockAt :: "int16 list \<Rightarrow> rat \<Rightarrow> nat \<Rightarrow> int option \<times> nat" where
  "blockAt buffer sampleRateRatio k =
     sumBlock buffer (offsetAt sampleRateRatio (k + 1)) (offsetAt sampleRateRatio k) (Some 0, 0)"

subsection \<open>convertFloat32ToInt16\<close>

text \<open>
  An element of the \<^verbatim>\<open>Float32Array\<close> that the capture graph delivers: a finite
  value, an infinity or \<^verbatim>\<open>NaN\<close>.
\<close>

datatype number = NaN | NegInfinity | Finite rat | PosInfinity

text \<open>\<^verbatim>\<open>Math.min(c, x)\<close> and \<^verbatim>\<open>Math.max(c, x)\<close> for a finite constant \<open>c\<close>.\<close>

fun Math_min :: "rat \<Rightarrow> number \<Rightarrow> number" where
  "Math_min c NaN = NaN"
| "Math_min c NegInfinity = NegInfinity"
| "Math_min c (Finite x) = Finite (min c x)"
| "Math_min c PosInfinity = Finite c"

fun Math_max :: "rat \<Rightarrow> number \<Rightarrow> number" where
  "Math_max c NaN = NaN"
| "Math_max c NegInfinity = Finite c"
| "Math_max c (Finite x) = Finite (max c x)"
| "Math_max c PosInfinity = PosInfinity"

text \<open>
  A store into an \<^verbatim>\<open>Int16Array\<close> (ToInt16): \<^verbatim>\<open>NaN\<close> and the infinities become 0,
  a finite number loses its fraction and wraps modulo \<open>2 ^ 16\<close>.
\<close>

fun toInt16 :: "number \<Rightarrow> int16" where
  "toInt16 (Finite x) = word_of_int (jsTrunc x)"
| "toInt16 _ = 0"

text \<open>
  \<^verbatim>\<open>s < 0 ? s * 0x8000 : s * 0x7FFF\<close>. A comparison with \<^verbatim>\<open>NaN\<close> is false and a
  product with \<^verbatim>\<open>NaN\<close> is \<^verbatim>\<open>NaN\<close>; an infinity keeps its sign.
\<close>

fun scaleSample :: "number \<Rightarrow> number" where
  "scaleSample (Finite s) = Finite (if s < 0 then s * 32768 else s * 32767)"
| "scaleSample s = s"

text \<open>
  The loop \<^verbatim>\<open>for (let i = 0; i < l; i++)\<close> over the fresh \<^verbatim>\<open>Int16Array(l)\<close>; the
  read \<^verbatim>\<open>buffer[i]\<close> is below \<open>l = buffer.length\<close>.
\<close>

function convertLoop :: "number list \<Rightarrow> int16 list \<Rightarrow> nat \<Rightarrow> int16 list" where
  "convertLoop buffer result i =
     (if i < length buffer then
        let s = Math_max (- 1) (Math_min 1 (buffer ! i))
        in convertLoop buffer (result[i := toInt16 (scaleSample s)]) (i + 1)
      else result)"
  by pat_completeness auto
termination
  by (relation "measure (\<lambda>(buffer, result, i). length buffer - i)") auto

declare convertLoop.simps [simp del]

definition convertFloat32ToInt16 :: "number list \<Rightarrow> int16 list" where
  "convertFloat32ToInt16 buffer = convertLoop buffer (replicate (length buffer) 0) 0"

text \<open>
  The specification's \<open>quantize\<close>, in its own words: clamp to \<open>[-1, 1]\<close>, scale by
  32767 (non-negative) or 32768 (negative), round to the nearest integer.
\<close>

definition quantize_spec :: "rat \<Rightarrow> int" where
  "quantize_spec x =
     (let s = max (- 1) (min 1 x) in round (if s < 0 then s * 32768 else s * 32767))"

text \<open>
  What the code computes, as a number: the same clamping and scaling, the fraction
  dropped towards zero; an infinity is clamped first, \<^verbatim>\<open>NaN\<close> gives 0.
\<close>

fun quantize_trunc :: "number \<Rightarrow> int" where
  "quantize_trunc NaN = 0"
| "quantize_trunc NegInfinity = - 32768"
| "quantize_trunc PosInfinity = 32767"
| "quantize_trunc (Finite x) =
     (let s = max (- 1) (min 1 x) in jsTrunc (if s < 0 then s * 32768 else s * 32767))"

subsection \<open>encodeWAV\<close>

text \<open>
  A \<^verbatim>\<open>DataView\<close> over an \<^verbatim>\<open>ArrayBuffer\<close> is the list of its bytes. A \<^verbatim>\<open>set\<close> method
  stores the bytes of its value from \<open>offset\<close> on and throws a \<^verbatim>\<open>RangeError\<close> when
  they do not fit in the view: the result \<open>None\<close>.
\<close>

definition storeBytes :: "byte list \<Rightarrow> nat \<Rightarrow> byte list \<Rightarrow> byte list option" where
  "storeBytes view offset bs =
     (if offset + length bs \<le> length view
      then Some (take offset view @ bs @ drop (offset + length bs) view)
      else None)"

text \<open>The little-endian bytes of a 16-bit and of a 32-bit value.\<close>

definition bytes16 :: "16 word \<Rightarrow> byte list" where
  "bytes16 v = [ucast v, ucast (drop_bit 8 v)]"

definition bytes32 :: "32 word \<Rightarrow> byte list" where
  "bytes32 v = [ucast v, ucast (drop_bit 8 v), ucast (drop_bit 16 v), ucast (drop_bit 24 v)]"

text \<open>
  \<^verbatim>\<open>view.setUint8(offset, v)\<close>, and \<^verbatim>\<open>view.setUint16(offset, v, true)\<close>,
  \<^verbatim>\<open>view.setUint32(offset, v, true)\<close>, \<^verbatim>\<open>view.setInt16(offset, v, true)\<close> with the
  little-endian flag. The number passed is converted modulo \<open>2 ^ 16\<close> or \<open>2 ^ 32\<close>: the
  callers below pass \<open>of_nat\<close> of it.
\<close>

definition setUint8 :: "byte list \<Rightarrow> nat \<Rightarrow> byte \<Rightarrow> byte list option" where
  "setUint8 view offset v = storeBytes view offset [v]"

definition setUint16 :: "byte list \<Rightarrow> nat \<Rightarrow> 16 word \<Rightarrow> byte list option" where
  "setUint16 view offset v = storeBytes view offset (bytes16 v)"

definition setUint32 :: "byte list \<Rightarrow> nat \<Rightarrow> 32 word \<Rightarrow> byte list option" where
  "setUint32 view offset v = storeBytes view offset (bytes32 v)"

definition setInt16 :: "byte list \<Rightarrow> nat \<Rightarrow> int16 \<Rightarrow> byte list option" where
  "setInt16 view offset v = storeBytes view offset (bytes16 v)"

text \<open>
  The local function \<^verbatim>\<open>writeString(view, offset, string)\<close>:
  \<^verbatim>\<open>for (let i = 0; i < string.length; i++) view.setUint8(offset + i, string.charCodeAt(i))\<close>.
\<close>

fun writeString :: "byte list \<Rightarrow> nat \<Rightarrow> string \<Rightarrow> byte list option" where
  "writeString view offset [] = Some view"
| "writeString view offset (c # cs) =
     setUint8 view offset (of_char c) \<bind> (\<lambda>view'. writeString view' (offset + 1) cs)"

text \<open>
  The loop \<^verbatim>\<open>for (let i = 0; i < samples.length; i++, offset += 2)
  view.setInt16(offset, samples[i], true)\<close>.
\<close>

fun writeSamples :: "byte list \<Rightarrow> nat \<Rightarrow> int16 list \<Rightarrow> byte list option" where
  "writeSamples view offset [] = Some view"
| "writeSamples view offset (s # samples) =
     setInt16 view offset s \<bind> (\<lambda>view'. writeSamples view' (offset + 2) samples)"

text \<open>
  \<^verbatim>\<open>encodeWAV(samples, sampleRate)\<close>: the bytes of the \<^verbatim>\<open>Blob\<close>, or \<open>None\<close> when a
  write throws. The running \<^verbatim>\<open>offset\<close> of the source is written out at each call.
\<close>

definition encodeWAV :: "int16 list \<Rightarrow> nat \<Rightarrow> byte list option" where
  "encodeWAV samples sampleRate = do {
     let view = replicate (44 + length samples * 2) 0;
     view \<leftarrow> writeString view 0 ''RIFF'';
     view \<leftarrow> setUint32 view 4 (of_nat (36 + length samples * 2));
     view \<leftarrow> writeString view 8 ''WAVE'';
     view \<leftarrow> writeString view 12 ''fmt '';
     view \<leftarrow> setUint32 view 16 16;
     view \<leftarrow> setUint16 view 20 1;
     view \<leftarrow> setUint16 view 22 1;
     view \<leftarrow> setUint32 view 24 (of_nat sampleRate);
     view \<leftarrow> setUint32 view 28 (of_nat (sampleRate * 2));
     view \<leftarrow> setUint16 view 32 2;
     view \<leftarrow> setUint16 view 34 16;
     view \<leftarrow> writeString view 36 ''data'';
     view \<leftarrow> setUint32 view 40 (of_nat (length samples * 2));
     writeSamples view 44 samples
   }"

text \<open>
  For reading a header back: the unsigned 32-bit little-endian number held in the four
  bytes from \<open>offset\<close> on, and the 44 header bytes that \<open>encodeWAV\<close> is shown to
  produce.
\<close>

definition getUint32 :: "byte list \<Rightarrow> nat \<Rightarrow> nat" where
  "getUint32 view offset =
     unat (view ! offset) + 256 * unat (view ! (offset + 1)) +
     65536 * unat (view ! (offset + 2)) + 16777216 * unat (view ! (offset + 3))"

definition wavHeader :: "nat \<Rightarrow> nat \<Rightarrow> byte list" where
  "wavHeader n sampleRate =
     map of_char ''RIFF'' @ bytes32 (of_nat (36 + n * 2)) @
     map of_char ''WAVE'' @ map of_char ''fmt '' @
     bytes32 16 @ bytes16 1 @ bytes16 1 @
     bytes32 (of_nat sampleRate) @ bytes32 (of_nat (sampleRate * 2)) @
     bytes16 2 @ bytes16 16 @
     map of_char ''data'' @ bytes32 (of_nat (n * 2))"

subsection \<open>The voice session: startVoiceRecording and stopVoiceRecording\<close>

text \<open>
  The component runs on the browser's event loop: one task at a time, each to
  completion. A task is a call of \<^verbatim>\<open>startVoiceRecording\<close> or \<^verbatim>\<open>stopVoiceRecording\<close>
  by the user interface, the continuation of an \<^verbatim>\<open>await\<close>, or a callback of a socket
  or of an audio worklet port. The model is a step function over these tasks; an
  interleaving is the list of tasks in the order in which they run.

  The objects that the code creates (sockets, media streams, audio contexts, worklet
  nodes) live in lists, and an object is named by its index; the four \<^verbatim>\<open>useRef\<close>
  cells hold an index or \<^verbatim>\<open>null\<close>.
\<close>

datatype ready_state = CONNECTING | OPEN | CLOSING | CLOSED

text \<open>
  What is handed to \<^verbatim>\<open>ws.send\<close>: the JSON text of the setup message, or of
  \<^verbatim>\<open>{realtimeInput: {media_chunks: [base64Data]}}\<close>, which is determined by the PCM
  samples that \<^verbatim>\<open>int16ToBase64\<close> encodes.
\<close>

datatype frame = Setup | RealtimeInput "int16 list"

record websocket =
  readyState :: ready_state
  outbox :: "frame list"

record audio_context =
  contextClosed :: bool
  contextSampleRate :: nat

text \<open>
  A worklet node with the two variables that its \<^verbatim>\<open>port.onmessage\<close> closure captures:
  the \<^verbatim>\<open>recording\<close> constant of the render in which \<^verbatim>\<open>startVoiceRecording\<close> was
  called, and the \<^verbatim>\<open>audioContext\<close> of that call. The statements that create a node
  and give it the handler (\<^verbatim>\<open>new AudioWorkletNode\<close> and what follows it) are never
  reached, see \<open>microphoneGranted\<close> below: no task creates a worklet node, and in
  every run from the initial state \<open>worklets\<close> stays empty and
  \<open>workletNodeRef\<close> stays \<^verbatim>\<open>null\<close>. The handler and the release of the node in
  \<^verbatim>\<open>stopVoiceRecording\<close> are modelled as they are written, on states that hold a node.
\<close>

record worklet_node =
  nodeConnected :: bool
  capturedRecording :: bool
  capturedContext :: nat

text \<open>
  A call of \<^verbatim>\<open>startVoiceRecording\<close> is suspended at \<^verbatim>\<open>await getUserMedia\<close>, then over:
  its promise is rejected, by the rejection of \<^verbatim>\<open>getUserMedia\<close> or by the exception
  that the statement after \<^verbatim>\<open>createMediaStreamSource\<close> throws.
\<close>

datatype phase = AwaitMicrophone | Rejected

text \<open>The resource calls that \<^verbatim>\<open>stopVoiceRecording\<close> makes, for their order.\<close>

datatype release = WorkletDisconnect nat | ContextClose nat | TracksStop nat | SocketClose nat

record session =
  recording :: bool
  isThinking :: bool
  wsRef :: "nat option"
  mediaStreamRef :: "nat option"
  audioContextRef :: "nat option"
  workletNodeRef :: "nat option"
  sockets :: "websocket list"
  streams :: "bool list"
  contexts :: "audio_context list"
  worklets :: "worklet_node list"
  calls :: "phase list"
  reads :: "int16 list option list"
  played :: "byte list list"

text \<open>
  \<open>streams\<close> holds, per media stream, whether its tracks are live; \<open>reads\<close> holds
  the \<^verbatim>\<open>event.data.arrayBuffer()\<close> promises of \<^verbatim>\<open>ws.onmessage\<close>, each with the samples
  it will deliver until its continuation has run; \<open>played\<close> holds the WAV bytes of
  every clip given to \<^verbatim>\<open>audio.play()\<close>.
\<close>

definition initial :: session where
  "initial = \<lparr>recording = False, isThinking = False,
     wsRef = None, mediaStreamRef = None, audioContextRef = None, workletNodeRef = None,
     sockets = [], streams = [], contexts = [], worklets = [], calls = [], reads = [],
     played = []\<rparr>"

text \<open>
  \<^verbatim>\<open>startVoiceRecording\<close> up to its first \<^verbatim>\<open>await\<close>: the two state setters, the new
  socket in \<^verbatim>\<open>wsRef\<close> with its handlers, and the request for the microphone. The
  constructor is given a well-formed \<^verbatim>\<open>wss:\<close> address, so the \<^verbatim>\<open>catch\<close> around it is
  not entered. A state setter takes effect for the tasks that follow. There is no
  test of \<^verbatim>\<open>recording\<close> or of a ref before these statements.
\<close>

definition startVoiceRecording :: "session \<Rightarrow> session" where
  "startVoiceRecording s =
     s\<lparr>recording := True, isThinking := False,
       wsRef := Some (length (sockets s)),
       sockets := sockets s @ [\<lparr>readyState = CONNECTING, outbox = []\<rparr>],
       calls := calls s @ [AwaitMicrophone]\<rparr>"

text \<open>
  The continuation after \<^verbatim>\<open>await navigator.mediaDevices.getUserMedia\<close> of call \<open>c\<close>,
  the device running at \<open>rate\<close> Hz: the stream and a new audio context go into their
  refs and \<^verbatim>\<open>createMediaStreamSource\<close> makes the source node. The next statement,
  \<^verbatim>\<open>const processorCode = class PCMProcessor extends AudioWorkletProcessor {...}\<close>, is
  a class expression, not a string (the text has no quotes around it), evaluated on
  the main thread, where \<^verbatim>\<open>AudioWorkletProcessor\<close> is not defined: it throws a
  \<^verbatim>\<open>ReferenceError\<close>. The statement is in no \<^verbatim>\<open>try\<close> block, so the call ends there with
  its promise rejected: \<^verbatim>\<open>addModule\<close>, \<^verbatim>\<open>new AudioWorkletNode\<close>, the assignment of
  \<^verbatim>\<open>port.onmessage\<close> and \<^verbatim>\<open>source.connect\<close> do not run. The stream and the context
  stay in their refs, live.
\<close>

definition microphoneGranted :: "nat \<Rightarrow> nat \<Rightarrow> session \<Rightarrow> session" where
  "microphoneGranted c rate s =
     (if c < length (calls s) \<and> calls s ! c = AwaitMicrophone then
        s\<lparr>mediaStreamRef := Some (length (streams s)),
          streams := streams s @ [True],
          audioContextRef := Some (length (contexts s)),
          contexts := contexts s @ [\<lparr>contextClosed = False, contextSampleRate = rate\<rparr>],
          calls := (calls s)[c := Rejected]\<rparr>
      else s)"

text \<open>The promise of \<^verbatim>\<open>getUserMedia\<close> rejects: the call ends there.\<close>

definition microphoneDenied :: "nat \<Rightarrow> session \<Rightarrow> session" where
  "microphoneDenied c s =
     (if c < length (calls s) \<and> calls s ! c = AwaitMicrophone then
        s\<lparr>calls := (calls s)[c := Rejected]\<rparr>
      else s)"

text \<open>\<^verbatim>\<open>ws.send(data)\<close> on socket \<open>k\<close>.\<close>

definition send :: "nat \<Rightarrow> frame \<Rightarrow> session \<Rightarrow> session" where
  "send k f s =
     s\<lparr>sockets := (sockets s)[k := (sockets s ! k)\<lparr>outbox := outbox (sockets s ! k) @ [f]\<rparr>]\<rparr>"

text \<open>
  Socket \<open>k\<close> reports that the connection is established: the browser sets
  \<^verbatim>\<open>readyState\<close> to \<^verbatim>\<open>OPEN\<close> and runs \<^verbatim>\<open>ws.onopen\<close>, which sends the setup message.
\<close>

definition socketOpened :: "nat \<Rightarrow> session \<Rightarrow> session" where
  "socketOpened k s =
     (if k < length (sockets s) \<and> readyState (sockets s ! k) = CONNECTING then
        send k Setup (s\<lparr>sockets := (sockets s)[k := (sockets s ! k)\<lparr>readyState := OPEN\<rparr>]\<rparr>)
      else s)"

text \<open>The connection of socket \<open>k\<close> is gone: \<^verbatim>\<open>readyState\<close> becomes \<^verbatim>\<open>CLOSED\<close>.\<close>

definition socketClosed :: "nat \<Rightarrow> session \<Rightarrow> session" where
  "socketClosed k s =
     (if k < length (sockets s) then
        s\<lparr>sockets := (sockets s)[k := (sockets s ! k)\<lparr>readyState := CLOSED\<rparr>]\<rparr>
      else s)"

text \<open>
  \<^verbatim>\<open>ws.onmessage\<close> of socket \<open>k\<close>; the browser delivers a message only while
  \<^verbatim>\<open>readyState\<close> is \<^verbatim>\<open>OPEN\<close>. For a \<^verbatim>\<open>Blob\<close> the handler runs up to
  \<^verbatim>\<open>await event.data.arrayBuffer()\<close>. For a string it parses the JSON and, when the
  message has a \<^verbatim>\<open>response.text\<close>, appends it to the conversation (state of the chat
  view, not modelled) and calls \<^verbatim>\<open>setIsThinking(false)\<close>.
\<close>

definition socketBlob :: "nat \<Rightarrow> int16 list \<Rightarrow> session \<Rightarrow> session" where
  "socketBlob k samples s =
     (if k < length (sockets s) \<and> readyState (sockets s ! k) = OPEN
      then s\<lparr>reads := reads s @ [Some samples]\<rparr>
      else s)"

definition socketText :: "nat \<Rightarrow> bool \<Rightarrow> session \<Rightarrow> session" where
  "socketText k hasResponseText s =
     (if k < length (sockets s) \<and> readyState (sockets s ! k) = OPEN \<and> hasResponseText
      then s\<lparr>isThinking := False\<rparr>
      else s)"

text \<open>
  The continuation of \<^verbatim>\<open>ws.onmessage\<close> after \<^verbatim>\<open>await event.data.arrayBuffer()\<close> of
  read \<open>r\<close>: \<^verbatim>\<open>encodeWAV(samples, 24000)\<close> and \<^verbatim>\<open>audio.play()\<close>.
\<close>

definition blobRead :: "nat \<Rightarrow> session \<Rightarrow> session" where
  "blobRead r s =
     (if r < length (reads s) then
        (case reads s ! r of
           Some samples \<Rightarrow>
             (case encodeWAV samples 24000 of
                Some wav \<Rightarrow> s\<lparr>reads := (reads s)[r := None], played := played s @ [wav]\<rparr>
              | None \<Rightarrow> s\<lparr>reads := (reads s)[r := None]\<rparr>)
         | None \<Rightarrow> s)
      else s)"

text \<open>
  \<^verbatim>\<open>workletNode.port.onmessage\<close> of worklet \<open>w\<close> for a frame of float samples, as it
  is written: the check of the captured \<^verbatim>\<open>recording\<close>, the conversion, and the send
  guarded by \<^verbatim>\<open>wsRef.current && wsRef.current.readyState === WebSocket.OPEN\<close>.
\<close>

definition audioFrame :: "nat \<Rightarrow> number list \<Rightarrow> session \<Rightarrow> session" where
  "audioFrame w floatSamples s =
     (if w < length (worklets s) then
        if \<not> capturedRecording (worklets s ! w) then s
        else
          let int16Data = convertFloat32ToInt16 floatSamples;
              rate = contextSampleRate (contexts s ! capturedContext (worklets s ! w));
              downsampledData = snd (downsampleBuffer int16Data rate 16000)
          in (case wsRef s of
                Some k \<Rightarrow>
                  if k < length (sockets s) \<and> readyState (sockets s ! k) = OPEN
                  then send k (RealtimeInput downsampledData) s
                  else s
              | None \<Rightarrow> s)
      else s)"

text \<open>
  \<^verbatim>\<open>ws.close()\<close>: nothing on a socket that is closing or closed, otherwise the socket
  starts closing.
\<close>

definition closeSocket :: "nat \<Rightarrow> session \<Rightarrow> session" where
  "closeSocket k s =
     (if k < length (sockets s) \<and>
         (readyState (sockets s ! k) = CONNECTING \<or> readyState (sockets s ! k) = OPEN)
      then s\<lparr>sockets := (sockets s)[k := (sockets s ! k)\<lparr>readyState := CLOSING\<rparr>]\<rparr>
      else s)"

text \<open>
  \<^verbatim>\<open>stopVoiceRecording\<close>, statement by statement, on the pair of the resource calls made
  so far and the state. \<^verbatim>\<open>audioContext.close()\<close> on a closed context gives a rejected
  promise and \<^verbatim>\<open>track.stop()\<close> on an ended track does nothing: neither throws.
\<close>

definition stopWorklet :: "release list \<times> session \<Rightarrow> release list \<times> session" where
  "stopWorklet = (\<lambda>(log, s).
     case workletNodeRef s of
       Some w \<Rightarrow>
         (log @ [WorkletDisconnect w],
          s\<lparr>worklets := (worklets s)[w := (worklets s ! w)\<lparr>nodeConnected := False\<rparr>],
            workletNodeRef := None\<rparr>)
     | None \<Rightarrow> (log, s))"

definition stopContext :: "release list \<times> session \<Rightarrow> release list \<times> session" where
  "stopContext = (\<lambda>(log, s).
     case audioContextRef s of
       Some c \<Rightarrow>
         (log @ [ContextClose c],
          s\<lparr>contexts := (contexts s)[c := (contexts s ! c)\<lparr>contextClosed := True\<rparr>]\<rparr>)
     | None \<Rightarrow> (log, s))"

definition stopTracks :: "release list \<times> session \<Rightarrow> release list \<times> session" where
  "stopTracks = (\<lambda>(log, s).
     case mediaStreamRef s of
       Some m \<Rightarrow> (log @ [TracksStop m], s\<lparr>streams := (streams s)[m := False]\<rparr>)
     | None \<Rightarrow> (log, s))"

definition stopSocket :: "release list \<times> session \<Rightarrow> release list \<times> session" where
  "stopSocket = (\<lambda>(log, s).
     case wsRef s of
       Some k \<Rightarrow> (log @ [SocketClose k], closeSocket k s)
     | None \<Rightarrow> (log, s))"

definition stopVoiceRecording :: "session \<Rightarrow> release list \<times> session" where
  "stopVoiceRecording s =
     stopSocket (stopTracks (stopContext (stopWorklet
       ([], s\<lparr>recording := False, isThinking := True\<rparr>))))"

text \<open>The tasks of the event loop, and a run of the component over a list of them.\<close>

datatype task =
    Start
  | Stop
  | MicrophoneGranted nat nat
  | MicrophoneDenied nat
  | SocketOpened nat
  | SocketClosed nat
  | SocketBlob nat "int16 list"
  | SocketText nat bool
  | BlobRead nat
  | AudioFrame nat "number list"

fun step :: "task \<Rightarrow> session \<Rightarrow> session" where
  "step Start s = startVoiceRecording s"
| "step Stop s = snd (stopVoiceRecording s)"
| "step (MicrophoneGranted c rate) s = microphoneGranted c rate s"
| "step (MicrophoneDenied c) s = microphoneDenied c s"
| "step (SocketOpened k) s = socketOpened k s"
| "step (SocketClosed k) s = socketClosed k s"
| "step (SocketBlob k samples) s = socketBlob k samples s"
| "step (SocketText k t) s = socketText k t s"
| "step (BlobRead r) s = blobRead r s"
| "step (AudioFrame w floatSamples) s = audioFrame w floatSamples s"

fun run :: "task list \<Rightarrow> session \<Rightarrow> session" where
  "run [] s = s"
| "run (t # ts) s = run ts (step t s)"

text \<open>
  For stating what reaches the sockets: the audio frames, in order, that have been
  handed to \<^verbatim>\<open>send\<close> on each socket.
\<close>

fun isAudioFrame :: "frame \<Rightarrow> bool" where
  "isAudioFrame (RealtimeInput payload) = True"
| "isAudioFrame Setup = False"

definition audioFramesSent :: "session \<Rightarrow> frame list list" where
  "audioFramesSent s = map (\<lambda>ws. filter isAudioFrame (outbox ws)) (sockets s)"

text \<open>The socket in \<^verbatim>\<open>wsRef\<close>, if there is one, is closing or closed.\<close>

definition refSocketClosing :: "session \<Rightarrow> bool" where
  "refSocketClosing s =
     (case wsRef s of
        None \<Rightarrow> True
      | Some k \<Rightarrow> k < length (sockets s) \<and>
          (readyState (sockets s ! k) = CLOSING \<or> readyState (sockets s ! k) = CLOSED))"

section \<open>Properties of the rounding to doubles\<close>

lemma roundHalfEven_near: "\<bar>y - of_int m\<bar> < 1 / 2 \<Longrightarrow> roundHalfEven y = m"
proof -
  assume a: "\<bar>y - of_int m\<bar> < 1 / 2"
  show ?thesis
  proof (cases "of_int m \<le> y")
    case True
    then have f: "\<lfloor>y\<rfloor> = m" using a by (intro floor_unique) (auto simp: abs_if split: if_splits)
    then show ?thesis using a True by (simp add: roundHalfEven_def Let_def)
  next
    case False
    then have f: "\<lfloor>y\<rfloor> = m - 1" using a by (intro floor_unique) (auto simp: abs_if split: if_splits)
    then show ?thesis using a False by (simp add: roundHalfEven_def Let_def)
  qed
qed

lemma roundHalfEven_of_int [simp]: "roundHalfEven (of_int m) = m"
  by (rule roundHalfEven_near) simp


lemma roundHalfEven_ge: "of_int n \<le> y \<Longrightarrow> n \<le> roundHalfEven y"
proof -
  assume a: "of_int n \<le> y"
  then have "n \<le> \<lfloor>y\<rfloor>" by (simp add: le_floor_iff)
  then show ?thesis by (simp add: roundHalfEven_def Let_def)
qed


lemma bitlen_powi:
  assumes "0 < p"
  shows "(2::rat) powi (bitlen p - 1) \<le> of_int p \<and> of_int p < (2::rat) powi bitlen p"
proof -
  have b: "1 \<le> bitlen p" using assms by (simp add: bitlen_alt_def)
  from bitlen_bounds [OF assms]
  have "2 ^ nat (bitlen p - 1) \<le> p" and "p < 2 ^ nat (bitlen p)" by simp_all
  then have "(of_int (2 ^ nat (bitlen p - 1)) :: rat) \<le> of_int p"
    and "(of_int p :: rat) < of_int (2 ^ nat (bitlen p))"
    by (simp_all only: of_int_le_iff of_int_less_iff)
  then show ?thesis using b by (simp add: power_int_def)
qed

lemma binade_bounds:
  assumes "0 < x"
  shows "2 powi binade x \<le> x \<and> x < 2 powi (binade x + 1)"
proof -
  obtain p q where pq: "quotient_of x = (p, q)" by (cases "quotient_of x")
  then have q: "0 < q" by (rule quotient_of_denom_pos)
  have x: "x = of_int p / of_int q" using pq by (rule quotient_of_div)
  have p: "0 < p" using assms q x by (simp add: zero_less_divide_iff)
  let ?d = "bitlen p - bitlen q"
  from bitlen_powi [OF p] have p1: "(2::rat) powi (bitlen p - 1) \<le> of_int p"
    and p2: "of_int p < (2::rat) powi bitlen p" by simp_all
  from bitlen_powi [OF q] have q1: "(2::rat) powi (bitlen q - 1) \<le> of_int q"
    and q2: "of_int q < (2::rat) powi bitlen q" by simp_all
  have qpos: "(0::rat) < of_int q" using q by simp
  have "x * of_int q < 2 powi bitlen p" using p2 x qpos by simp
  moreover have "(2::rat) powi bitlen p = 2 powi (?d + 1) * 2 powi (bitlen q - 1)"
    by (simp add: power_int_add [symmetric])
  moreover have "2 powi (?d + 1) * (2::rat) powi (bitlen q - 1) \<le> 2 powi (?d + 1) * of_int q"
    using q1 by (intro mult_left_mono) simp_all
  ultimately have "x * of_int q < 2 powi (?d + 1) * of_int q" by linarith
  then have up: "x < 2 powi (?d + 1)" using qpos by simp
  have "(2::rat) powi (?d - 1) * of_int q < 2 powi (?d - 1) * 2 powi bitlen q"
    using q2 by (intro mult_strict_left_mono) simp_all
  moreover have "(2::rat) powi (?d - 1) * 2 powi bitlen q = 2 powi (bitlen p - 1)"
    by (simp add: power_int_add [symmetric])
  ultimately have "(2::rat) powi (?d - 1) * of_int q < x * of_int q"
    using p1 x qpos by simp
  then have lo: "2 powi (?d - 1) < x" using qpos by simp
  show ?thesis
  proof (cases "2 powi ?d \<le> x")
    case True
    then show ?thesis using up pq by (simp add: binade_def)
  next
    case False
    then show ?thesis using lo pq by (simp add: binade_def)
  qed
qed

lemma binade_unique:
  assumes "0 < x" and "2 powi e \<le> x" and "x < 2 powi (e + 1)"
  shows "binade x = e"
proof -
  from binade_bounds [OF assms(1)]
  have b1: "2 powi binade x \<le> x" and b2: "x < 2 powi (binade x + 1)" by simp_all
  have "(2::rat) powi e < 2 powi (binade x + 1)" using assms(2) b2 by simp
  then have "\<not> binade x + 1 \<le> e"
    using power_int_increasing [of "binade x + 1" e "2::rat"] by auto
  moreover have "(2::rat) powi binade x < 2 powi (e + 1)" using assms(3) b1 by simp
  then have "\<not> e + 1 \<le> binade x"
    using power_int_increasing [of "e + 1" "binade x" "2::rat"] by auto
  ultimately show ?thesis by simp
qed


lemma round64_eval:
  assumes "2 ^ 52 \<le> x * 2 ^ j" and "x * 2 ^ j < 2 ^ 53"
    and "\<bar>x * 2 ^ j - of_int m\<bar> < 1 / 2"
  shows "round64 x = of_int m / 2 ^ j"
proof -
  have pos: "(0::rat) < 2 ^ j" by simp
  have "0 < x * 2 ^ j" using assms(1) by (rule less_le_trans [rotated]) simp
  then have x: "0 < x" using pos by (simp add: zero_less_mult_iff)
  have p: "(2::rat) powi (52 - int j) * 2 ^ j = 2 ^ 52"
       "(2::rat) powi (52 - int j + 1) * 2 ^ j = 2 ^ 53"
    by (simp_all add: power_int_diff power_int_add)
  have "2 powi (52 - int j) * 2 ^ j \<le> x * 2 ^ j" using assms(1) p by simp
  then have lo: "2 powi (52 - int j) \<le> x" using pos by simp
  have "x * 2 ^ j < 2 powi (52 - int j + 1) * 2 ^ j" using assms(2) p by simp
  then have hi: "x < 2 powi (52 - int j + 1)" using pos by simp
  have b: "binade x = 52 - int j" using x lo hi by (rule binade_unique)
  have "binade x - 52 = - int j" using b by simp
  then have u: "(2::rat) powi (binade x - 52) = 1 / 2 ^ j"
    by (simp only: power_int_minus power_int_of_nat inverse_eq_divide)
  have "roundHalfEven (x * 2 ^ j) = m" using assms(3) by (rule roundHalfEven_near)
  then show ?thesis using x by (simp add: round64_def u Let_def)
qed

lemma round64_exact:
  assumes "x \<noteq> 0" and "x / 2 powi (binade \<bar>x\<bar> - 52) = of_int k"
  shows "round64 x = x"
proof -
  have "of_int (roundHalfEven (x / 2 powi (binade \<bar>x\<bar> - 52))) * 2 powi (binade \<bar>x\<bar> - 52) =
        x / 2 powi (binade \<bar>x\<bar> - 52) * 2 powi (binade \<bar>x\<bar> - 52)"
    by (simp only: assms(2) roundHalfEven_of_int)
  also have "\<dots> = x" by simp
  finally show ?thesis using assms(1) by (simp add: round64_def Let_def)
qed

lemma round64_of_int:
  assumes "\<bar>n\<bar> \<le> 2 ^ 53"
  shows "round64 (of_int n) = of_int n"
proof (cases "n = 0")
  case True
  then show ?thesis by (simp add: round64_def)
next
  case False
  let ?a = "\<bar>of_int n\<bar> :: rat"
  let ?e = "binade ?a"
  have a: "0 < ?a" using False by simp
  from binade_bounds [OF a]
  have b1: "2 powi ?e \<le> ?a" and b2: "?a < 2 powi (?e + 1)" by simp_all
  have "?a = of_int \<bar>n\<bar>" by simp
  moreover have "(of_int \<bar>n\<bar> :: rat) \<le> of_int (2 ^ 53)"
    using assms by (simp only: of_int_le_iff)
  ultimately have le: "?a \<le> 2 powi 53" by simp
  then have "(2::rat) powi ?e \<le> 2 powi 53" using b1 by (rule order_trans [rotated])
  then have "\<not> 54 \<le> ?e"
    using power_int_strict_increasing [of 53 ?e "2::rat"] by auto
  then have e: "?e \<le> 53" by simp
  have "\<exists>k. of_int n / 2 powi (?e - 52) = (of_int k :: rat)"
  proof (cases "?e = 53")
    case True
    then have "?a = 2 powi 53" using b1 le by simp
    then have "(of_int \<bar>n\<bar> :: rat) = of_int (2 ^ 53)" by simp
    then have "\<bar>n\<bar> = 2 ^ 53" by (simp only: of_int_eq_iff)
    then have "n = 2 * (n div 2)" by simp presburger
    then have "(of_int n :: rat) = 2 * of_int (n div 2)"
      by (metis of_int_mult of_int_numeral)
    then have "of_int n / 2 powi (?e - 52) = (of_int (n div 2) :: rat)"
      using True by simp
    then show ?thesis ..
  next
    case False
    then have "0 \<le> 52 - ?e" using e by simp
    then have "(2::rat) powi (52 - ?e) = of_int (2 ^ nat (52 - ?e))"
      by (simp add: power_int_def)
    moreover have "of_int n / 2 powi (?e - 52) = of_int n * (2::rat) powi (52 - ?e)"
      by (simp add: power_int_diff)
    ultimately have "of_int n / 2 powi (?e - 52) = (of_int (n * 2 ^ nat (52 - ?e)) :: rat)"
      by (simp only: of_int_mult)
    then show ?thesis ..
  qed
  then obtain k where "of_int n / 2 powi (?e - 52) = (of_int k :: rat)" ..
  moreover have "(of_int n :: rat) \<noteq> 0" using False by simp
  ultimately show ?thesis by (rule round64_exact [rotated])
qed


lemma int_over_ulp:
  assumes "e \<le> 52"
  shows "of_int n / 2 powi (e - 52) = (of_int (n * 2 ^ nat (52 - e)) :: rat)"
proof -
  have "0 \<le> 52 - e" using assms by simp
  then have "(2::rat) powi (52 - e) = of_int (2 ^ nat (52 - e))"
    by (simp add: power_int_def)
  moreover have "of_int n / 2 powi (e - 52) = of_int n * (2::rat) powi (52 - e)"
    by (simp add: power_int_diff)
  ultimately show ?thesis by (simp only: of_int_mult)
qed


lemma round64_ge_int:
  assumes "of_int n \<le> x" and "0 \<le> n" and "n \<le> 2 ^ 53"
  shows "of_int n \<le> round64 x"
proof (cases "x = 0")
  case True
  then show ?thesis using assms by (simp add: round64_def)
next
  case False
  have "(0::rat) \<le> of_int n" using assms(2) by simp
  then have x: "0 < x" using assms(1) False by simp
  let ?e = "binade x"
  let ?u = "(2::rat) powi (?e - 52)"
  from binade_bounds [OF x] have b1: "2 powi ?e \<le> x" by simp
  have r: "round64 x = of_int (roundHalfEven (x / ?u)) * ?u"
    using x by (simp add: round64_def Let_def)
  show ?thesis
  proof (cases "?e \<le> 52")
    case True
    let ?K = "n * 2 ^ nat (52 - ?e)"
    have K: "of_int n / ?u = (of_int ?K :: rat)" using True by (rule int_over_ulp)
    have "of_int n / ?u \<le> x / ?u" using assms(1) by (simp add: divide_right_mono)
    then have "?K \<le> roundHalfEven (x / ?u)" unfolding K by (rule roundHalfEven_ge)
    then have "(of_int ?K :: rat) \<le> of_int (roundHalfEven (x / ?u))"
      by (simp only: of_int_le_iff)
    then have le: "of_int ?K * ?u \<le> of_int (roundHalfEven (x / ?u)) * ?u"
      by (simp add: mult_right_mono)
    have "of_int n = of_int ?K * ?u" unfolding K [symmetric] by simp
    also note le
    finally show ?thesis unfolding r .
  next
    case False
    then have e: "53 \<le> ?e" by simp
    have "(2::rat) powi ?e / ?u = of_int (2 ^ 52)"
      by (simp add: power_int_diff)
    moreover have "(2::rat) powi ?e / ?u \<le> x / ?u" using b1 by (simp add: divide_right_mono)
    ultimately have "of_int (2 ^ 52) \<le> x / ?u" by simp
    then have "2 ^ 52 \<le> roundHalfEven (x / ?u)" by (rule roundHalfEven_ge)
    then have "(of_int (2 ^ 52) :: rat) \<le> of_int (roundHalfEven (x / ?u))"
      by (simp only: of_int_le_iff)
    then have le: "of_int (2 ^ 52) * ?u \<le> of_int (roundHalfEven (x / ?u)) * ?u"
      by (simp add: mult_right_mono)
    have "(of_int n :: rat) \<le> of_int (2 ^ 53)" using assms(3) by (simp only: of_int_le_iff)
    also have "(of_int (2 ^ 53) :: rat) = 2 powi 53" by simp
    also have "(2::rat) powi 53 \<le> 2 powi ?e" using e by (intro power_int_increasing) simp_all
    also have "(2::rat) powi ?e = of_int (2 ^ 52) * ?u" by (simp add: power_int_diff)
    also note le
    finally show ?thesis unfolding r .
  qed
qed




section \<open>Properties of downsampleBuffer\<close>

lemma sumBlock_eq:
  "sumBlock buffer n i (Some a, c) =
     (Some (a + sum_list (map sint (take (min n (length buffer) - i) (drop i buffer)))),
      c + (min n (length buffer) - i))"
proof (induction "n - i" arbitrary: i a c)
  case 0
  then show ?case by (subst sumBlock.simps) simp
next
  case (Suc d)
  show ?case
  proof (cases "i < n \<and> i < length buffer")
    case True
    then have d: "d = n - (i + 1)" using Suc.hyps(2) by simp
    have m: "min n (length buffer) - i = Suc (min n (length buffer) - (i + 1))"
      using True by (auto simp: min_def)
    have dr: "drop i buffer = buffer ! i # drop (i + 1) buffer"
      using True by (simp add: Cons_nth_drop_Suc)
    show ?thesis
      using True Suc.hyps(1)[OF d, of "a + sint (buffer ! i)" "c + 1"]
      apply (subst sumBlock.simps)
      apply (simp only: m dr)
      apply (simp add: typedArrayGet_def)
      done
  next
    case False
    then show ?thesis by (subst sumBlock.simps) auto
  qed
qed

lemma round64_0 [simp]: "round64 0 = 0"
  by (simp add: round64_def)

lemma Math_round_of_int: "Math_round (of_int n) = n"
  unfolding Math_round_def by (rule floor_unique) simp_all


lemma Math_round_nonneg: "0 \<le> x \<Longrightarrow> 0 \<le> Math_round x"
  by (simp add: Math_round_def)

lemma round64_nonneg: "0 \<le> x \<Longrightarrow> 0 \<le> round64 x"
  using round64_ge_int [of 0 x] by simp

lemma offsetAt_0: "offsetAt r 0 = 0"
  by (simp add: offsetAt_def Math_round_def)

lemma downsampleLoop_eq:
  "k \<le> length result \<Longrightarrow>
   downsampleLoop buffer r result k (offsetAt r k) =
     take k result @ map (\<lambda>j. blockSample (blockAt buffer r j)) [k..<length result]"
proof (induction "length result - k" arbitrary: k result)
  case 0
  then show ?case by (subst downsampleLoop.simps) simp
next
  case (Suc d)
  then have lt: "k < length result" by simp
  let ?res = "result[k := blockSample (blockAt buffer r k)]"
  have d: "d = length ?res - (k + 1)" using Suc.hyps(2) by simp
  have le: "k + 1 \<le> length ?res" using lt by simp
  have step: "downsampleLoop buffer r result k (offsetAt r k) =
      downsampleLoop buffer r ?res (k + 1) (offsetAt r (k + 1))"
    using lt by (subst downsampleLoop.simps) (simp add: Let_def offsetAt_def blockAt_def)
  have "take (k + 1) ?res = take k result @ [blockSample (blockAt buffer r k)]"
    using lt by (simp add: take_Suc_conv_app_nth)
  moreover have "[k..<length result] = k # [k + 1..<length result]"
    using lt by (simp add: upt_conv_Cons)
  ultimately show ?case
    using Suc.hyps(1)[OF d le] step by simp
qed

lemma blockAt_eq:
  "blockAt buffer r k =
     (Some (sum_list (map sint
        (take (min (offsetAt r (k + 1)) (length buffer) - offsetAt r k)
           (drop (offsetAt r k) buffer)))),
      min (offsetAt r (k + 1)) (length buffer) - offsetAt r k)"
  by (simp add: blockAt_def sumBlock_eq)

lemma downsampleLoop_start:
  "downsampleLoop buffer r (replicate n 0) 0 0 =
     map (\<lambda>j. blockSample (blockAt buffer r j)) [0..<n]"
  using downsampleLoop_eq[of 0 "replicate n 0" buffer r]
  by (simp only: offsetAt_0 take_0 append_Nil length_replicate le0)

lemma downsampleBuffer_eq:
  assumes "outSampleRate < sampleRate"
  shows "downsampleBuffer buffer sampleRate outSampleRate =
     ([], map (\<lambda>k. blockSample
                 (blockAt buffer (round64 (of_nat sampleRate / of_nat outSampleRate)) k))
            [0..<nat (Math_round (round64 (of_nat (length buffer) /
                        round64 (of_nat sampleRate / of_nat outSampleRate))))])"
proof -
  have a: "outSampleRate \<noteq> sampleRate" "\<not> sampleRate < outSampleRate"
    using assms by simp_all
  show ?thesis
    unfolding downsampleBuffer_def Let_def
    by (simp only: a if_False downsampleLoop_start)
qed

lemma floor_rat_numeral [simp]:
  "\<lfloor>numeral a / numeral b :: rat\<rfloor> = numeral a div numeral b"
  using floor_divide_of_int_eq [of "numeral a" "numeral b", where ?'a = rat] by simp

lemma floor_rat_one_numeral [simp]:
  "\<lfloor>1 / numeral b :: rat\<rfloor> = 1 div numeral b"
  using floor_divide_of_int_eq [of 1 "numeral b", where ?'a = rat] by simp

lemma floor_rat_neg_numeral [simp]:
  "\<lfloor>- (numeral a / numeral b) :: rat\<rfloor> = - numeral a div numeral b"
  using floor_divide_of_int_eq [of "- numeral a" "numeral b", where ?'a = rat] by simp

text \<open>
  Claim C9. For every buffer and every pair of rates with the target rate above the
  source rate, \<open>downsampleBuffer\<close> returns its input unchanged and writes one
  warning line with \<^verbatim>\<open>console.error\<close>; it does not throw.
\<close>

theorem downsampleBuffer_upsample_unchanged:
  "sampleRate < outSampleRate \<Longrightarrow>
   downsampleBuffer buffer sampleRate outSampleRate =
     ([''Downsampling rate should be smaller than original sample rate''], buffer)"
  by (simp add: downsampleBuffer_def)

theorem downsampleBuffer_upsample_unchanged_witness:
  "(16000::nat) < 48000 \<and>
   downsampleBuffer [1, 2, 3] 16000 48000 =
     ([''Downsampling rate should be smaller than original sample rate''], [1, 2, 3])"
  using downsampleBuffer_upsample_unchanged [of 16000 48000 "[1, 2, 3]"] by simp

lemma length_downsampleBuffer:
  assumes "outSampleRate < sampleRate"
  shows "int (length (snd (downsampleBuffer buffer sampleRate outSampleRate))) =
       Math_round (round64 (of_nat (length buffer) /
                     round64 (of_nat sampleRate / of_nat outSampleRate)))"
proof -
  have "0 \<le> round64 (of_nat sampleRate / of_nat outSampleRate)"
    by (rule round64_nonneg) simp
  then have "0 \<le> round64 (of_nat (length buffer) /
                     round64 (of_nat sampleRate / of_nat outSampleRate))"
    by (intro round64_nonneg) simp
  then have "0 \<le> Math_round (round64 (of_nat (length buffer) /
                     round64 (of_nat sampleRate / of_nat outSampleRate)))"
    by (rule Math_round_nonneg)
  then show ?thesis
    by (simp add: downsampleBuffer_eq[OF assms])
qed





text \<open>
  At 240 samples from 48000 Hz to 44100 Hz the quotient is the double
  \<open>220.49999999999997\<close>: the output has 220 samples.
\<close>

lemma ratio_48000_44100:
  "round64 (of_nat 48000 / of_nat 44100) = 4901877145437275 / 2 ^ 52"
  using round64_eval [of "of_nat 48000 / of_nat 44100" 52 4901877145437275] by simp

lemma quotient_240:
  "round64 (of_nat 240 / (4901877145437275 / 2 ^ 52)) = 7758154045587455 / 2 ^ 45"
  using round64_eval [of "of_nat 240 / (4901877145437275 / 2 ^ 52)" 45 7758154045587455]
  by simp

lemma downsampleBuffer_length_240:
  "length (snd (downsampleBuffer (replicate 240 0) 48000 44100)) = 220"
proof -
  have "Math_round (round64 (of_nat (length (replicate 240 (0::int16))) /
          round64 (of_nat 48000 / of_nat 44100))) = Math_round (7758154045587455 / 2 ^ 45)"
    by (simp only: length_replicate ratio_48000_44100 quotient_240)
  also have "\<dots> = 220" by (simp add: Math_round_def)
  finally have "int (length (snd (downsampleBuffer (replicate 240 0) 48000 44100))) = 220"
    using length_downsampleBuffer [of 44100 48000 "replicate 240 0"] by simp
  then show ?thesis by simp
qed

subsection \<open>The blocks of the averaging loop\<close>










subsection \<open>A constant buffer\<close>

lemma ratio_multiple:
  assumes "sampleRate = m * outSampleRate" and "0 < outSampleRate" and "sampleRate \<le> 2 ^ 53"
  shows "round64 (of_nat sampleRate / of_nat outSampleRate) = of_nat m"
proof -
  have "m \<le> sampleRate" using assms(1,2) by simp
  then have "m \<le> 2 ^ 53" using assms(3) by simp
  then have "\<bar>int m\<bar> \<le> 2 ^ 53" by simp
  then have "round64 (of_int (int m)) = of_int (int m)" by (rule round64_of_int)
  moreover have "(of_nat sampleRate / of_nat outSampleRate :: rat) = of_int (int m)"
    using assms(1,2) by simp
  ultimately show ?thesis by simp
qed

lemma ratio_48000_16000: "round64 (of_nat 48000 / of_nat 16000) = 3"
  using ratio_multiple [of 48000 3 16000] by simp

lemma offsetAt_multiple:
  assumes "k * m \<le> 2 ^ 53"
  shows "offsetAt (of_nat m) k = k * m"
proof -
  have "int (k * m) \<le> int (2 ^ 53)" using assms by (simp only: of_nat_le_iff)
  then have "\<bar>int (k * m)\<bar> \<le> 2 ^ 53" by simp
  then have "round64 (of_int (int (k * m))) = of_int (int (k * m))" by (rule round64_of_int)
  moreover have "(of_nat k * of_nat m :: rat) = of_int (int (k * m))" by simp
  ultimately have "Math_round (round64 (of_nat k * of_nat m)) = int (k * m)"
    by (simp only: Math_round_of_int)
  then have "nat (Math_round (round64 (of_nat k * of_nat m))) = nat (int (k * m))"
    by (rule arg_cong)
  then show ?thesis by (simp only: offsetAt_def nat_int)
qed

lemma offsetAt_3:
  assumes "k \<le> 1600"
  shows "offsetAt 3 k = 3 * k"
proof -
  have "k * 3 \<le> 2 ^ 53" using assms by simp
  then have "offsetAt (of_nat 3) k = k * 3" by (rule offsetAt_multiple)
  then show ?thesis by (simp add: mult.commute)
qed

lemma blockAt_constant:
  assumes "k < 1600"
  shows "blockAt (replicate 4800 v) 3 k = (Some (3 * sint v), 3)"
proof -
  have o: "offsetAt 3 k = 3 * k" using assms by (intro offsetAt_3) simp
  have o1: "offsetAt 3 (k + 1) = 3 * (k + 1)" using assms by (intro offsetAt_3) simp
  have m: "min (3 * (k + 1)) (length (replicate 4800 v)) - 3 * k = 3" using assms by simp
  have "take 3 (drop (3 * k) (replicate 4800 v)) = replicate 3 v"
    using assms by simp
  then have "sum_list (map sint (take 3 (drop (3 * k) (replicate 4800 v)))) = 3 * sint v"
    by (simp only: map_replicate sum_list_replicate)
  then show ?thesis
    by (simp only: blockAt_eq o o1 m)
qed

lemma sint16_bounds: "- 32768 \<le> sint (v :: int16)" "sint (v :: int16) \<le> 32767"
  using sint_ge [of v] sint_lt [of v] by simp_all

lemma blockSample_constant:
  "blockSample (Some (3 * sint (v :: int16)), 3) =
     word_of_int (min 32767 (max (- 32768) (sint v * 32767)))"
proof -
  have q: "(of_int (3 * sint v) / of_nat 3 :: rat) = of_int (sint v)"
    by simp
  have "\<bar>sint v\<bar> \<le> 2 ^ 53" using sint16_bounds [of v] by simp
  then have r1: "round64 (of_int (sint v)) = of_int (sint v)" by (rule round64_of_int)
  have p: "(of_int (sint v) * 32767 :: rat) = of_int (sint v * 32767)"
    by simp
  have "\<bar>sint v * 32767\<bar> \<le> 2 ^ 53" using sint16_bounds [of v] by simp
  then have r2: "round64 (of_int (sint v * 32767)) = of_int (sint v * 32767)"
    by (rule round64_of_int)
  have "Math_round (round64 (round64 (of_int (3 * sint v) / of_nat 3) * 32767)) =
        sint v * 32767"
    by (simp only: q r1 p r2 Math_round_of_int)
  moreover have "(3::nat) \<noteq> 0" by simp
  ultimately show ?thesis by (simp only: blockSample.simps if_False)
qed

lemma newLength_4800: "nat (Math_round (round64 (of_nat 4800 / 3))) = 1600"
proof -
  have "(of_nat 4800 / 3 :: rat) = of_int 1600" by simp
  moreover have "round64 (of_int 1600) = of_int 1600" by (rule round64_of_int) simp
  ultimately have "Math_round (round64 (of_nat 4800 / 3)) = 1600"
    by (simp only: Math_round_of_int)
  then show ?thesis by simp
qed

lemma downsampleBuffer_constant:
  "downsampleBuffer (replicate 4800 v) 48000 16000 =
     ([], replicate 1600 (word_of_int (min 32767 (max (- 32768) (sint v * 32767)))))"
proof -
  have n: "nat (Math_round (round64 (of_nat (length (replicate 4800 v)) / 3))) = 1600"
    by (simp only: length_replicate newLength_4800)
  have "map (\<lambda>k. blockSample (blockAt (replicate 4800 v) 3 k)) [0..<1600] =
        map (\<lambda>k. word_of_int (min 32767 (max (- 32768) (sint v * 32767)))) [0..<1600]"
    by (rule map_cong) (simp_all only: blockAt_constant blockSample_constant atLeastLessThan_iff set_upt)
  also have "\<dots> = replicate 1600 (word_of_int (min 32767 (max (- 32768) (sint v * 32767))))"
    by (simp only: map_replicate_const length_upt minus_nat.diff_0)
  finally have "map (\<lambda>k. blockSample (blockAt (replicate 4800 v) 3 k)) [0..<1600] =
     replicate 1600 (word_of_int (min 32767 (max (- 32768) (sint v * 32767))))" .
  moreover have "(16000::nat) < 48000" by simp
  ultimately show ?thesis
    using downsampleBuffer_eq [of 16000 48000 "replicate 4800 v"]
    by (simp only: ratio_48000_16000 n)
qed

text \<open>
  Claim C2. Downsampling a buffer of 4800 samples that all hold the value \<open>v\<close> from
  48000 Hz to 16000 Hz should give 1600 samples equal to \<open>v\<close>. The code gives 1600
  samples, each the mean \<open>v\<close> multiplied by 32767 and clamped
  (\<open>downsampleBuffer_constant\<close>): for \<open>v = 1\<close> every output sample is 32767.
\<close>

theorem downsampleBuffer_constant_one:
  "downsampleBuffer (replicate 4800 1) 48000 16000 = ([], replicate 1600 32767)"
  using downsampleBuffer_constant [of 1] by simp

section \<open>Properties of convertFloat32ToInt16\<close>

lemma convertLoop_eq:
  "i \<le> length buffer \<Longrightarrow> length result = length buffer \<Longrightarrow>
   convertLoop buffer result i =
     take i result @
     map (\<lambda>x. toInt16 (scaleSample (Math_max (- 1) (Math_min 1 x)))) (drop i buffer)"
proof (induction "length buffer - i" arbitrary: i result)
  case 0
  then show ?case by (subst convertLoop.simps) simp
next
  case (Suc d)
  then have lt: "i < length buffer" by simp
  let ?v = "toInt16 (scaleSample (Math_max (- 1) (Math_min 1 (buffer ! i))))"
  have d: "d = length buffer - (i + 1)" using Suc.hyps(2) by simp
  have step: "convertLoop buffer result i = convertLoop buffer (result[i := ?v]) (i + 1)"
    using lt by (subst convertLoop.simps) (simp add: Let_def)
  have tk: "take (i + 1) (result[i := ?v]) = take i result @ [?v]"
    using lt Suc.prems(2) by (simp add: take_Suc_conv_app_nth)
  have dr: "drop i buffer = buffer ! i # drop (i + 1) buffer"
    using lt by (simp add: Cons_nth_drop_Suc)
  have "convertLoop buffer (result[i := ?v]) (i + 1) =
      take (i + 1) (result[i := ?v]) @
      map (\<lambda>x. toInt16 (scaleSample (Math_max (- 1) (Math_min 1 x)))) (drop (i + 1) buffer)"
    using lt Suc.prems(2) by (intro Suc.hyps(1)[OF d]) simp_all
  then show ?case
    by (simp only: step tk dr) simp
qed

lemma convertFloat32ToInt16_map:
  "convertFloat32ToInt16 buffer =
     map (\<lambda>x. toInt16 (scaleSample (Math_max (- 1) (Math_min 1 x)))) buffer"
  using convertLoop_eq [of 0 buffer "replicate (length buffer) 0"]
  by (simp add: convertFloat32ToInt16_def)

lemma sint_int16: "- 32768 \<le> z \<Longrightarrow> z \<le> 32767 \<Longrightarrow> sint (word_of_int z :: int16) = z"
  by (simp add: sint_sbintrunc' signed_take_bit_int_eq_self)

lemma jsTrunc_scaled_range:
  assumes "- 1 \<le> s" and "s \<le> 1"
  shows "- 32768 \<le> jsTrunc (if s < 0 then s * 32768 else s * 32767) \<and>
         jsTrunc (if s < 0 then s * 32768 else s * 32767) \<le> 32767"
proof (cases "s < 0")
  case True
  have "of_int (- 32768) \<le> s * 32768" using assms by simp
  then have "- 32768 \<le> \<lceil>s * 32768\<rceil>" by (simp only: le_ceiling_iff)
  moreover have "s * 32768 \<le> of_int 0" using True by simp
  then have "\<lceil>s * 32768\<rceil> \<le> 0" by (simp only: ceiling_le_iff)
  ultimately show ?thesis using True by (simp add: jsTrunc_def)
next
  case False
  have "of_int 0 \<le> s * 32767" using False by simp
  then have "0 \<le> \<lfloor>s * 32767\<rfloor>" by (simp only: le_floor_iff)
  moreover have "s * 32767 \<le> of_int 32767" using assms by simp
  then have "\<lfloor>s * 32767\<rfloor> \<le> 32767" by (metis floor_mono floor_of_int)
  ultimately show ?thesis using False by (simp add: jsTrunc_def)
qed

lemma quantizeSample_trunc:
  "sint (toInt16 (scaleSample (Math_max (- 1) (Math_min 1 x)))) = quantize_trunc x"
proof (cases x)
  case (Finite q)
  let ?s = "max (- 1) (min 1 q)"
  have "- 1 \<le> ?s" "?s \<le> 1" by simp_all
  then have "- 32768 \<le> jsTrunc (if ?s < 0 then ?s * 32768 else ?s * 32767) \<and>
         jsTrunc (if ?s < 0 then ?s * 32768 else ?s * 32767) \<le> 32767"
    by (rule jsTrunc_scaled_range)
  then have "sint (word_of_int (jsTrunc (if ?s < 0 then ?s * 32768 else ?s * 32767)) :: int16) =
      jsTrunc (if ?s < 0 then ?s * 32768 else ?s * 32767)"
    by (simp only: sint_int16)
  then show ?thesis using Finite by (simp add: Let_def)
next
  case NaN then show ?thesis by simp
next
  case NegInfinity
  have "sint (word_of_int (- 32768) :: int16) = - 32768" by (rule sint_int16) simp_all
  then show ?thesis using NegInfinity by (simp add: jsTrunc_def)
next
  case PosInfinity
  have "sint (word_of_int 32767 :: int16) = 32767" by (rule sint_int16) simp_all
  then show ?thesis using PosInfinity by (simp add: jsTrunc_def)
qed

text \<open>
  Claim C3, as amended. For every input array, \<open>convertFloat32ToInt16\<close> maps each
  sample by clamping it to \<open>[-1, 1]\<close>, scaling the clamped value by 32767 if it is
  non-negative and by 32768 if it is negative, and dropping the fraction of the product
  towards zero (the store into the \<^verbatim>\<open>Int16Array\<close>); the 16-bit store never wraps, and
  \<^verbatim>\<open>NaN\<close> becomes 0. The output has one sample per input sample.
\<close>

theorem convertFloat32ToInt16_truncates:
  "map sint (convertFloat32ToInt16 buffer) = map quantize_trunc buffer"
  by (simp add: convertFloat32ToInt16_map quantizeSample_trunc)

text \<open>
  Claim C3 as stated fails: the sample \<open>1/4\<close> scales to \<open>8191.75\<close>, whose nearest
  integer is 8192, and the code stores 8191.
\<close>

theorem convertFloat32ToInt16_not_nearest:
  "map sint (convertFloat32ToInt16 [Finite (1 / 4)]) = [8191] \<and> quantize_spec (1 / 4) = 8192"
proof -
  have "map sint (convertFloat32ToInt16 [Finite (1 / 4)]) = [quantize_trunc (Finite (1 / 4))]"
    by (simp only: convertFloat32ToInt16_map list.map quantizeSample_trunc)
  moreover have "quantize_trunc (Finite (1 / 4)) = 8191"
    by (simp add: jsTrunc_def Let_def)
  moreover have "quantize_spec (1 / 4) = 8192"
    by (simp add: quantize_spec_def round_def Let_def)
  ultimately show ?thesis by simp
qed

section \<open>Properties of encodeWAV\<close>

lemma storeBytes_replace:
  "offset = length pre \<Longrightarrow> length old = length bs \<Longrightarrow>
   storeBytes (pre @ old @ post) offset bs = Some (pre @ bs @ post)"
  by (simp add: storeBytes_def)

lemma writeString_replace:
  "offset = length pre \<Longrightarrow> length old = length s \<Longrightarrow>
   writeString (pre @ old @ post) offset s = Some (pre @ map of_char s @ post)"
proof (induction s arbitrary: pre old offset)
  case Nil
  then show ?case by simp
next
  case (Cons c cs)
  then obtain o1 os where old: "old = o1 # os" by (cases old) auto
  have st: "setUint8 (pre @ old @ post) offset (of_char c) = Some (pre @ [of_char c] @ os @ post)"
    unfolding setUint8_def old
    using storeBytes_replace [of offset pre "[o1]" "[of_char c]" "os @ post"] Cons.prems(1)
    by simp
  have "writeString ((pre @ [of_char c]) @ os @ post) (offset + 1) cs =
          Some ((pre @ [of_char c]) @ map of_char cs @ post)"
    using Cons.prems old by (intro Cons.IH) simp_all
  then show ?case by (simp add: st)
qed

lemma writeSamples_replace:
  "offset = length pre \<Longrightarrow> length old = 2 * length samples \<Longrightarrow>
   writeSamples (pre @ old) offset samples = Some (pre @ concat (map bytes16 samples))"
proof (induction samples arbitrary: pre old offset)
  case Nil
  then show ?case by simp
next
  case (Cons s samples)
  then obtain o1 o2 os where old: "old = o1 # o2 # os"
    by (cases old; cases "tl old") auto
  have st: "setInt16 (pre @ old) offset s = Some (pre @ bytes16 s @ os)"
    unfolding setInt16_def old
    using storeBytes_replace [of offset pre "[o1, o2]" "bytes16 s" os] Cons.prems(1)
    by (simp add: bytes16_def)
  have "writeSamples ((pre @ bytes16 s) @ os) (offset + 2) samples =
          Some ((pre @ bytes16 s) @ concat (map bytes16 samples))"
    using Cons.prems old by (intro Cons.IH) (simp_all add: bytes16_def)
  then show ?case by (simp add: st)
qed


lemma length_bytes16 [simp]: "length (bytes16 v) = 2"
  by (simp add: bytes16_def)

lemma length_bytes32 [simp]: "length (bytes32 v) = 4"
  by (simp add: bytes32_def)

lemma storeBytes_zeros:
  "length pre = offset \<Longrightarrow> length bs = k \<Longrightarrow>
   storeBytes (pre @ replicate (k + m) 0) offset bs = Some ((pre @ bs) @ replicate m 0)"
  using storeBytes_replace [of offset pre "replicate k 0" bs "replicate m 0"]
  by (simp add: replicate_add)

lemma writeString_zeros:
  "length pre = offset \<Longrightarrow> length s = k \<Longrightarrow>
   writeString (pre @ replicate (k + m) 0) offset s = Some ((pre @ map of_char s) @ replicate m 0)"
  using writeString_replace [of offset pre "replicate k 0" s "replicate m 0"]
  by (simp add: replicate_add)

lemma encodeWAV_eq:
  "encodeWAV samples sampleRate =
     Some (wavHeader (length samples) sampleRate @ concat (map bytes16 samples))"
proof -
  define n where "n = length samples"
  define h1 :: "byte list" where "h1 = map of_char ''RIFF''"
  define h2 where "h2 = h1 @ bytes32 (of_nat (36 + n * 2))"
  define h3 where "h3 = h2 @ map of_char ''WAVE''"
  define h4 where "h4 = h3 @ map of_char ''fmt ''"
  define h5 where "h5 = h4 @ bytes32 16"
  define h6 where "h6 = h5 @ bytes16 1"
  define h7 where "h7 = h6 @ bytes16 1"
  define h8 where "h8 = h7 @ bytes32 (of_nat sampleRate)"
  define h9 where "h9 = h8 @ bytes32 (of_nat (sampleRate * 2))"
  define h10 where "h10 = h9 @ bytes16 2"
  define h11 where "h11 = h10 @ bytes16 16"
  define h12 where "h12 = h11 @ map of_char ''data''"
  define h13 where "h13 = h12 @ bytes32 (of_nat (n * 2))"
  have l1: "length h1 = 4" by (simp add: h1_def)
  have l2: "length h2 = 8" by (simp add: h2_def l1)
  have l3: "length h3 = 12" by (simp add: h3_def l2)
  have l4: "length h4 = 16" by (simp add: h4_def l3)
  have l5: "length h5 = 20" by (simp add: h5_def l4)
  have l6: "length h6 = 22" by (simp add: h6_def l5)
  have l7: "length h7 = 24" by (simp add: h7_def l6)
  have l8: "length h8 = 28" by (simp add: h8_def l7)
  have l9: "length h9 = 32" by (simp add: h9_def l8)
  have l10: "length h10 = 34" by (simp add: h10_def l9)
  have l11: "length h11 = 36" by (simp add: h11_def l10)
  have l12: "length h12 = 40" by (simp add: h12_def l11)
  have l13: "length h13 = 44" by (simp add: h13_def l12)
  have s1: "writeString (replicate (44 + n * 2) 0) 0 ''RIFF'' = Some (h1 @ replicate (40 + n * 2) 0)"
    using writeString_zeros [of "[]" 0 "''RIFF''" 4 "40 + n * 2"]
    by (simp add: h1_def)
  have s2: "setUint32 (h1 @ replicate (40 + n * 2) 0) 4 (of_nat (36 + n * 2)) = Some (h2 @ replicate (36 + n * 2) 0)"
    using storeBytes_zeros [of h1 4 "bytes32 (of_nat (36 + n * 2))" 4 "36 + n * 2"]
    by (simp add: h2_def setUint32_def l1)
  have s3: "writeString (h2 @ replicate (36 + n * 2) 0) 8 ''WAVE'' = Some (h3 @ replicate (32 + n * 2) 0)"
    using writeString_zeros [of h2 8 "''WAVE''" 4 "32 + n * 2"]
    by (simp add: h3_def l2)
  have s4: "writeString (h3 @ replicate (32 + n * 2) 0) 12 ''fmt '' = Some (h4 @ replicate (28 + n * 2) 0)"
    using writeString_zeros [of h3 12 "''fmt ''" 4 "28 + n * 2"]
    by (simp add: h4_def l3)
  have s5: "setUint32 (h4 @ replicate (28 + n * 2) 0) 16 16 = Some (h5 @ replicate (24 + n * 2) 0)"
    using storeBytes_zeros [of h4 16 "bytes32 16" 4 "24 + n * 2"]
    by (simp add: h5_def setUint32_def l4)
  have s6: "setUint16 (h5 @ replicate (24 + n * 2) 0) 20 1 = Some (h6 @ replicate (22 + n * 2) 0)"
    using storeBytes_zeros [of h5 20 "bytes16 1" 2 "22 + n * 2"]
    by (simp add: h6_def setUint16_def l5)
  have s7: "setUint16 (h6 @ replicate (22 + n * 2) 0) 22 1 = Some (h7 @ replicate (20 + n * 2) 0)"
    using storeBytes_zeros [of h6 22 "bytes16 1" 2 "20 + n * 2"]
    by (simp add: h7_def setUint16_def l6)
  have s8: "setUint32 (h7 @ replicate (20 + n * 2) 0) 24 (of_nat sampleRate) = Some (h8 @ replicate (16 + n * 2) 0)"
    using storeBytes_zeros [of h7 24 "bytes32 (of_nat sampleRate)" 4 "16 + n * 2"]
    by (simp add: h8_def setUint32_def l7)
  have s9: "setUint32 (h8 @ replicate (16 + n * 2) 0) 28 (of_nat (sampleRate * 2)) = Some (h9 @ replicate (12 + n * 2) 0)"
    using storeBytes_zeros [of h8 28 "bytes32 (of_nat (sampleRate * 2))" 4 "12 + n * 2"]
    by (simp add: h9_def setUint32_def l8)
  have s10: "setUint16 (h9 @ replicate (12 + n * 2) 0) 32 2 = Some (h10 @ replicate (10 + n * 2) 0)"
    using storeBytes_zeros [of h9 32 "bytes16 2" 2 "10 + n * 2"]
    by (simp add: h10_def setUint16_def l9)
  have s11: "setUint16 (h10 @ replicate (10 + n * 2) 0) 34 16 = Some (h11 @ replicate (8 + n * 2) 0)"
    using storeBytes_zeros [of h10 34 "bytes16 16" 2 "8 + n * 2"]
    by (simp add: h11_def setUint16_def l10)
  have s12: "writeString (h11 @ replicate (8 + n * 2) 0) 36 ''data'' = Some (h12 @ replicate (4 + n * 2) 0)"
    using writeString_zeros [of h11 36 "''data''" 4 "4 + n * 2"]
    by (simp add: h12_def l11)
  have s13: "setUint32 (h12 @ replicate (4 + n * 2) 0) 40 (of_nat (n * 2)) = Some (h13 @ replicate (n * 2) 0)"
    using storeBytes_zeros [of h12 40 "bytes32 (of_nat (n * 2))" 4 "n * 2"]
    by (simp add: h13_def setUint32_def l12)
  have s14: "writeSamples (h13 @ replicate (n * 2) 0) 44 samples =
      Some (h13 @ concat (map bytes16 samples))"
    by (rule writeSamples_replace) (simp_all add: l13 n_def)
  have h: "h13 = wavHeader n sampleRate"
    by (simp only: h13_def h12_def h11_def h10_def h9_def h8_def h7_def h6_def h5_def
          h4_def h3_def h2_def h1_def wavHeader_def append_assoc)
  show ?thesis
    unfolding encodeWAV_def Let_def n_def [symmetric]
    by (simp only: s1 s2 s3 s4 s5 s6 s7 s8 s9 s10 s11 s12 s13 [unfolded h] s14 [unfolded h]
          bind.bind_lunit)
qed


lemma le32_nat:
  fixes m :: nat
  assumes "m < 4294967296"
  shows "m mod 256 + 256 * (m div 256 mod 256) + 65536 * (m div 65536 mod 256) +
         16777216 * (m div 16777216 mod 256) = m"
proof -
  have a: "m div 16777216 mod 256 = m div 16777216" using assms by simp
  have "m div 65536 div 256 = m div (65536 * 256)" by (rule div_mult2_eq [symmetric])
  then have e1: "m div 65536 div 256 = m div 16777216" by simp
  have "m div 256 div 256 = m div (256 * 256)" by (rule div_mult2_eq [symmetric])
  then have e2: "m div 256 div 256 = m div 65536" by simp
  have b: "m div 65536 = 256 * (m div 16777216) + m div 65536 mod 256"
    using div_mult_mod_eq [of "m div 65536" 256] unfolding e1 by simp
  have c: "m div 256 = 256 * (m div 65536) + m div 256 mod 256"
    using div_mult_mod_eq [of "m div 256" 256] unfolding e2 by simp
  have d: "m = 256 * (m div 256) + m mod 256"
    using div_mult_mod_eq [of m 256] by simp
  show ?thesis using a b c d by linarith
qed

lemma getUint32_bytes32:
  "getUint32 (pre @ bytes32 v @ post) (length pre) = unat v"
proof -
  have b: "unat (ucast v :: byte) = unat v mod 256"
       "unat (ucast (drop_bit 8 v) :: byte) = unat v div 256 mod 256"
       "unat (ucast (drop_bit 16 v) :: byte) = unat v div 65536 mod 256"
       "unat (ucast (drop_bit 24 v) :: byte) = unat v div 16777216 mod 256"
    by (simp_all add: unsigned_ucast_eq unat_drop_bit_eq take_bit_eq_mod drop_bit_eq_div unat_div)
  have "unat v < 4294967296" using unsigned_less [of v] by simp
  then show ?thesis
    using le32_nat [of "unat v"]
    by (simp add: getUint32_def bytes32_def nth_append b)
qed


lemma length_wavHeader [simp]: "length (wavHeader n sampleRate) = 44"
  by (simp add: wavHeader_def)

lemma length_wav_data [simp]: "length (concat (map bytes16 samples)) = 2 * length samples"
  by (induction samples) simp_all

lemma unat_of_nat32: "unat (of_nat k :: 32 word) = k mod 2 ^ 32"
  by (simp only: unat_of_nat) simp

lemma getUint32_riff:
  "getUint32 (wavHeader n sampleRate @ pcm) 4 = (36 + 2 * n) mod 2 ^ 32"
proof -
  let ?pre = "map of_char ''RIFF'' :: byte list"
  let ?post = "map of_char ''WAVE'' @ map of_char ''fmt '' @
     bytes32 16 @ bytes16 1 @ bytes16 1 @
     bytes32 (of_nat sampleRate) @ bytes32 (of_nat (sampleRate * 2)) @
     bytes16 2 @ bytes16 16 @ map of_char ''data'' @ bytes32 (of_nat (n * 2)) @ pcm"
  have eq: "wavHeader n sampleRate @ pcm = ?pre @ bytes32 (of_nat (36 + n * 2)) @ ?post"
    by (simp only: wavHeader_def append_assoc)
  have len: "length ?pre = 4" by simp
  have "getUint32 (?pre @ bytes32 (of_nat (36 + n * 2)) @ ?post) (length ?pre) =
      unat (of_nat (36 + n * 2) :: 32 word)"
    by (rule getUint32_bytes32)
  then have "getUint32 (wavHeader n sampleRate @ pcm) 4 = (36 + n * 2) mod 2 ^ 32"
    by (simp only: eq len unat_of_nat32)
  then show ?thesis by (simp only: mult.commute)
qed

lemma getUint32_data:
  "getUint32 (wavHeader n sampleRate @ pcm) 40 = (2 * n) mod 2 ^ 32"
proof -
  let ?pre = "map of_char ''RIFF'' @ bytes32 (of_nat (36 + n * 2)) @
     map of_char ''WAVE'' @ map of_char ''fmt '' @
     bytes32 16 @ bytes16 1 @ bytes16 1 @
     bytes32 (of_nat sampleRate) @ bytes32 (of_nat (sampleRate * 2)) @
     bytes16 2 @ bytes16 16 @ map of_char ''data'' :: byte list"
  have eq: "wavHeader n sampleRate @ pcm = ?pre @ bytes32 (of_nat (n * 2)) @ pcm"
    by (simp only: wavHeader_def append_assoc)
  have len: "length ?pre = 40" by simp
  have "getUint32 (?pre @ bytes32 (of_nat (n * 2)) @ pcm) (length ?pre) =
      unat (of_nat (n * 2) :: 32 word)"
    by (rule getUint32_bytes32)
  then have "getUint32 (wavHeader n sampleRate @ pcm) 40 = (n * 2) mod 2 ^ 32"
    by (simp only: eq len unat_of_nat32)
  then show ?thesis by (simp only: mult.commute)
qed

text \<open>
  Claim C8, as amended. For every sample count \<open>n\<close> and every sample rate,
  \<open>encodeWAV\<close> does not throw and produces exactly \<open>44 + 2 * n\<close> bytes: the 44
  header bytes \<open>wavHeader\<close>, determined by \<open>n\<close> and the rate, followed by the
  little-endian bytes of the samples. The two size fields are 32 bits wide and hold
  \<open>36 + 2 * n\<close> and \<open>2 * n\<close> modulo \<open>2 ^ 32\<close>; for every \<open>n\<close> with
  \<open>36 + 2 * n < 2 ^ 32\<close> the declared RIFF chunk size is \<open>36 + 2 * n\<close> and the
  declared data size is \<open>2 * n\<close>, the actual sizes.
\<close>

theorem encodeWAV_layout:
  "\<exists>out. encodeWAV samples sampleRate = Some out \<and>
     out = wavHeader (length samples) sampleRate @ concat (map bytes16 samples) \<and>
     length out = 44 + 2 * length samples \<and>
     getUint32 out 4 = (36 + 2 * length samples) mod 2 ^ 32 \<and>
     getUint32 out 40 = (2 * length samples) mod 2 ^ 32 \<and>
     (36 + 2 * length samples < 2 ^ 32 \<longrightarrow>
        getUint32 out 4 = 36 + 2 * length samples \<and> getUint32 out 40 = 2 * length samples)"
proof -
  let ?out = "wavHeader (length samples) sampleRate @ concat (map bytes16 samples)"
  have "encodeWAV samples sampleRate = Some ?out" by (rule encodeWAV_eq)
  moreover have "length ?out = 44 + 2 * length samples" by simp
  moreover have r: "getUint32 ?out 4 = (36 + 2 * length samples) mod 2 ^ 32"
    by (rule getUint32_riff)
  moreover have d: "getUint32 ?out 40 = (2 * length samples) mod 2 ^ 32"
    by (rule getUint32_data)
  moreover have "36 + 2 * length samples < 2 ^ 32 \<longrightarrow>
        getUint32 ?out 4 = 36 + 2 * length samples \<and> getUint32 ?out 40 = 2 * length samples"
    unfolding r d by simp
  ultimately show ?thesis by blast
qed

theorem encodeWAV_layout_witness:
  "\<exists>out. encodeWAV [1, 2, 3] 24000 = Some out \<and> length out = 50 \<and>
     getUint32 out 4 = 42 \<and> getUint32 out 40 = 6"
  using encodeWAV_layout [of "[1, 2, 3]" 24000] by auto

text \<open>
  Claim C8 as stated, for every sample count, fails where the size no longer fits the
  field: with 2147483630 samples the output has 4294967304 bytes and the RIFF chunk
  size field, written with \<^verbatim>\<open>setUint32\<close>, holds 0 instead of 4294967296.
\<close>

theorem encodeWAV_riff_size_wraps:
  "encodeWAV (replicate 2147483630 0) 24000 \<noteq> None \<and>
   length (the (encodeWAV (replicate 2147483630 0) 24000)) = 44 + 2 * 2147483630 \<and>
   getUint32 (the (encodeWAV (replicate 2147483630 0) 24000)) 4 = 0"
proof -
  have e: "encodeWAV (replicate 2147483630 0) 24000 =
      Some (wavHeader 2147483630 24000 @ concat (map bytes16 (replicate 2147483630 0)))"
    using encodeWAV_eq [of "replicate 2147483630 0" 24000] by (simp only: length_replicate)
  have "getUint32 (wavHeader 2147483630 24000 @ concat (map bytes16 (replicate 2147483630 0))) 4 =
      (36 + 2 * 2147483630) mod 2 ^ 32"
    by (rule getUint32_riff)
  then have "getUint32 (wavHeader 2147483630 24000 @ concat (map bytes16 (replicate 2147483630 0))) 4 = 0"
    by simp
  moreover have "length (wavHeader 2147483630 24000 @ concat (map bytes16 (replicate 2147483630 0))) =
      44 + 2 * 2147483630"
    by (simp only: length_append length_wavHeader length_wav_data length_replicate)
  ultimately show ?thesis by (simp only: e option.sel) simp
qed

section \<open>Properties of the voice session\<close>

subsection \<open>stopVoiceRecording\<close>

lemmas task_defs = startVoiceRecording_def microphoneGranted_def microphoneDenied_def
  socketOpened_def socketClosed_def socketBlob_def
  socketText_def blobRead_def audioFrame_def send_def

lemmas stop_defs = stopVoiceRecording_def stopWorklet_def stopContext_def stopTracks_def
  stopSocket_def closeSocket_def

lemma started_once:
  "run [Start, MicrophoneGranted 0 48000] initial =
     \<lparr>recording = True, isThinking = False,
      wsRef = Some 0, mediaStreamRef = Some 0, audioContextRef = Some 0, workletNodeRef = None,
      sockets = [\<lparr>readyState = CONNECTING, outbox = []\<rparr>],
      streams = [True],
      contexts = [\<lparr>contextClosed = False, contextSampleRate = 48000\<rparr>],
      worklets = [],
      calls = [Rejected],
      reads = [], played = []\<rparr>"
  by (simp add: initial_def task_defs)

text \<open>
  Claim C5 as stated fails in the order: after a start with the microphone granted,
  \<open>stopVoiceRecording\<close> closes the audio context before it stops the media tracks.
  There is no worklet node to disconnect.
\<close>

theorem stopVoiceRecording_closes_context_before_tracks:
  "fst (stopVoiceRecording (run [Start, MicrophoneGranted 0 48000] initial)) =
     [ContextClose 0, TracksStop 0, SocketClose 0]"
  unfolding started_once by (simp add: stop_defs)

lemma fst_stopVoiceRecording:
  "fst (stopVoiceRecording s) =
     (case workletNodeRef s of Some w \<Rightarrow> [WorkletDisconnect w] | None \<Rightarrow> []) @
     (case audioContextRef s of Some c \<Rightarrow> [ContextClose c] | None \<Rightarrow> []) @
     (case mediaStreamRef s of Some m \<Rightarrow> [TracksStop m] | None \<Rightarrow> []) @
     (case wsRef s of Some k \<Rightarrow> [SocketClose k] | None \<Rightarrow> [])"
  by (simp add: stop_defs split: option.splits)

lemma snd_stopVoiceRecording:
  "snd (stopVoiceRecording s) =
     s\<lparr>recording := False, isThinking := True, workletNodeRef := None,
       worklets := (case workletNodeRef s of
          Some w \<Rightarrow> (worklets s)[w := (worklets s ! w)\<lparr>nodeConnected := False\<rparr>]
        | None \<Rightarrow> worklets s),
       contexts := (case audioContextRef s of
          Some c \<Rightarrow> (contexts s)[c := (contexts s ! c)\<lparr>contextClosed := True\<rparr>]
        | None \<Rightarrow> contexts s),
       streams := (case mediaStreamRef s of
          Some m \<Rightarrow> (streams s)[m := False] | None \<Rightarrow> streams s),
       sockets := (case wsRef s of
          Some k \<Rightarrow>
            if k < length (sockets s) \<and>
               (readyState (sockets s ! k) = CONNECTING \<or> readyState (sockets s ! k) = OPEN)
            then (sockets s)[k := (sockets s ! k)\<lparr>readyState := CLOSING\<rparr>]
            else sockets s
        | None \<Rightarrow> sockets s)\<rparr>"
  by (rule session.equality) (auto simp add: stop_defs split: option.splits)

lemma stop_twice: "snd (stopVoiceRecording (snd (stopVoiceRecording s))) = snd (stopVoiceRecording s)"
proof -
  have c: "xs[c := ((xs[c := (xs ! c)\<lparr>contextClosed := True\<rparr>]) ! c)\<lparr>contextClosed := True\<rparr>] =
           xs[c := (xs ! c)\<lparr>contextClosed := True\<rparr>]" for xs :: "audio_context list" and c
    by (cases "c < length xs") (simp_all add: list_update_beyond)
  have w: "xs[w := ((xs[w := (xs ! w)\<lparr>nodeConnected := False\<rparr>]) ! w)\<lparr>nodeConnected := False\<rparr>] =
           xs[w := (xs ! w)\<lparr>nodeConnected := False\<rparr>]" for xs :: "worklet_node list" and w
    by (cases "w < length xs") (simp_all add: list_update_beyond)
  show ?thesis
    by (rule session.equality) (auto simp add: snd_stopVoiceRecording c w split: option.splits)
qed

text \<open>
  Claim C5, as amended. In every state \<open>stopVoiceRecording\<close> releases in the order:
  disconnect the worklet node, close the audio context, stop the media tracks, close
  the socket; a resource whose ref is \<^verbatim>\<open>null\<close> is skipped. It is a total function (it
  does not throw). A second call leaves the state as the first call left it: it skips
  the worklet node, whose ref the first call cleared, and repeats the other three
  releases on resources that are already released. Before any start it releases
  nothing and only sets \<^verbatim>\<open>isThinking\<close>.
\<close>

theorem stopVoiceRecording_releases:
  "fst (stopVoiceRecording s) =
     (case workletNodeRef s of Some w \<Rightarrow> [WorkletDisconnect w] | None \<Rightarrow> []) @
     (case audioContextRef s of Some c \<Rightarrow> [ContextClose c] | None \<Rightarrow> []) @
     (case mediaStreamRef s of Some m \<Rightarrow> [TracksStop m] | None \<Rightarrow> []) @
     (case wsRef s of Some k \<Rightarrow> [SocketClose k] | None \<Rightarrow> []) \<and>
   snd (stopVoiceRecording (snd (stopVoiceRecording s))) = snd (stopVoiceRecording s) \<and>
   fst (stopVoiceRecording (snd (stopVoiceRecording s))) =
     (case audioContextRef s of Some c \<Rightarrow> [ContextClose c] | None \<Rightarrow> []) @
     (case mediaStreamRef s of Some m \<Rightarrow> [TracksStop m] | None \<Rightarrow> []) @
     (case wsRef s of Some k \<Rightarrow> [SocketClose k] | None \<Rightarrow> []) \<and>
   stopVoiceRecording initial = ([], initial\<lparr>isThinking := True\<rparr>)"
proof -
  have "fst (stopVoiceRecording (snd (stopVoiceRecording s))) =
     (case audioContextRef s of Some c \<Rightarrow> [ContextClose c] | None \<Rightarrow> []) @
     (case mediaStreamRef s of Some m \<Rightarrow> [TracksStop m] | None \<Rightarrow> []) @
     (case wsRef s of Some k \<Rightarrow> [SocketClose k] | None \<Rightarrow> [])"
    by (simp add: fst_stopVoiceRecording snd_stopVoiceRecording)
  moreover have "stopVoiceRecording initial = ([], initial\<lparr>isThinking := True\<rparr>)"
    by (simp add: stop_defs initial_def)
  ultimately show ?thesis
    using fst_stopVoiceRecording [of s] stop_twice [of s] by simp
qed

subsection \<open>startVoiceRecording\<close>







subsection \<open>Outbound audio frames\<close>

lemma audioFrame_dropped:
  assumes "\<forall>k. wsRef s = Some k \<longrightarrow> readyState (sockets s ! k) \<noteq> OPEN"
  shows "audioFrame w floatSamples s = s"
  using assms by (simp add: audioFrame_def Let_def split: option.splits)

lemma audioFrame_outbox:
  assumes "outbox (sockets (audioFrame w floatSamples s) ! k) \<noteq> outbox (sockets s ! k)"
  shows "wsRef s = Some k \<and> k < length (sockets s) \<and> readyState (sockets s ! k) = OPEN"
proof (rule ccontr)
  assume n: "\<not> (wsRef s = Some k \<and> k < length (sockets s) \<and> readyState (sockets s ! k) = OPEN)"
  have "outbox (sockets (audioFrame w floatSamples s) ! k) = outbox (sockets s ! k)"
  proof (cases "wsRef s")
    case None
    then show ?thesis by (simp add: audioFrame_def Let_def)
  next
    case (Some j)
    show ?thesis
    proof (cases "j = k")
      case True
      with n Some show ?thesis by (auto simp add: audioFrame_def Let_def)
    next
      case False
      with Some show ?thesis by (simp add: audioFrame_def Let_def send_def)
    qed
  qed
  with assms show False by simp
qed

text \<open>
  Claim C6. The audio callback hands a frame to a socket only when that socket is the
  one in \<^verbatim>\<open>wsRef\<close> and its \<^verbatim>\<open>readyState\<close> is \<^verbatim>\<open>OPEN\<close>. In every other state (no
  socket yet, connecting, closing, closed) the callback leaves the whole state as it
  was: the frame is not sent, nothing is queued and nothing is thrown, so every run
  continues as if the frame had never been produced and no later task transmits it.
\<close>

theorem audioFrame_sent_only_when_open:
  "(\<forall>k. outbox (sockets (audioFrame w floatSamples s) ! k) \<noteq> outbox (sockets s ! k) \<longrightarrow>
        wsRef s = Some k \<and> k < length (sockets s) \<and> readyState (sockets s ! k) = OPEN) \<and>
   ((\<forall>k. wsRef s = Some k \<longrightarrow> readyState (sockets s ! k) \<noteq> OPEN) \<longrightarrow>
      audioFrame w floatSamples s = s \<and>
      (\<forall>ts. run (AudioFrame w floatSamples # ts) s = run ts s))"
proof (intro conjI allI impI)
  fix k
  assume "outbox (sockets (audioFrame w floatSamples s) ! k) \<noteq> outbox (sockets s ! k)"
  then show "wsRef s = Some k" "k < length (sockets s)" "readyState (sockets s ! k) = OPEN"
    using audioFrame_outbox [of w floatSamples s k] by simp_all
next
  assume h: "\<forall>k. wsRef s = Some k \<longrightarrow> readyState (sockets s ! k) \<noteq> OPEN"
  then show "audioFrame w floatSamples s = s" by (rule audioFrame_dropped)
next
  fix ts
  assume h: "\<forall>k. wsRef s = Some k \<longrightarrow> readyState (sockets s ! k) \<noteq> OPEN"
  then have "audioFrame w floatSamples s = s" by (rule audioFrame_dropped)
  then show "run (AudioFrame w floatSamples # ts) s = run ts s" by simp
qed

text \<open>
  The claim at work, on a state in which a worklet node has the handler and the
  socket of \<^verbatim>\<open>wsRef\<close> is still connecting: the handler is given a frame, then the
  socket opens. Only the setup message is sent.
\<close>

theorem audioFrame_sent_only_when_open_witness:
  "map outbox (sockets (run
       [AudioFrame 0 [Finite (1 / 2), Finite (1 / 2), Finite (1 / 2)], SocketOpened 0]
       \<lparr>recording = True, isThinking = False,
        wsRef = Some 0, mediaStreamRef = Some 0, audioContextRef = Some 0,
        workletNodeRef = Some 0,
        sockets = [\<lparr>readyState = CONNECTING, outbox = []\<rparr>],
        streams = [True],
        contexts = [\<lparr>contextClosed = False, contextSampleRate = 48000\<rparr>],
        worklets = [\<lparr>nodeConnected = True, capturedRecording = True, capturedContext = 0\<rparr>],
        calls = [Rejected],
        reads = [], played = []\<rparr>)) =
     [[Setup]]"
proof -
  define s where "s =
       \<lparr>recording = True, isThinking = False,
        wsRef = Some 0, mediaStreamRef = Some 0, audioContextRef = Some 0,
        workletNodeRef = Some 0,
        sockets = [\<lparr>readyState = CONNECTING, outbox = []\<rparr>],
        streams = [True],
        contexts = [\<lparr>contextClosed = False, contextSampleRate = 48000\<rparr>],
        worklets = [\<lparr>nodeConnected = True, capturedRecording = True, capturedContext = 0\<rparr>],
        calls = [Rejected],
        reads = [], played = ([] :: byte list list)\<rparr>"
  let ?f = "[Finite (1 / 2), Finite (1 / 2), Finite (1 / 2)]"
  have c: "\<forall>k. wsRef s = Some k \<longrightarrow> readyState (sockets s ! k) \<noteq> OPEN"
    by (simp add: s_def)
  have "run (AudioFrame 0 ?f # [SocketOpened 0]) s = run [SocketOpened 0] s"
    using audioFrame_sent_only_when_open [of 0 ?f s] c by blast
  then have "map outbox (sockets (run [AudioFrame 0 ?f, SocketOpened 0] s)) =
             map outbox (sockets (run [SocketOpened 0] s))"
    by simp
  also have "\<dots> = [[Setup]]"
    by (simp add: s_def socketOpened_def send_def)
  finally show ?thesis unfolding s_def .
qed

subsection \<open>Playback after a stop\<close>

lemma blob_before_stop:
  "run [Start, MicrophoneGranted 0 48000, SocketOpened 0, SocketBlob 0 [1, 2], Stop] initial =
     \<lparr>recording = False, isThinking = True,
      wsRef = Some 0, mediaStreamRef = Some 0, audioContextRef = Some 0, workletNodeRef = None,
      sockets = [\<lparr>readyState = CLOSING, outbox = [Setup]\<rparr>],
      streams = [False],
      contexts = [\<lparr>contextClosed = True, contextSampleRate = 48000\<rparr>],
      worklets = [],
      calls = [Rejected],
      reads = [Some [1, 2]], played = []\<rparr>"
  by (simp add: initial_def task_defs stop_defs)

text \<open>
  Claim C1. After \<open>stopVoiceRecording\<close> no inbound binary frame should start a
  playback. The handler \<^verbatim>\<open>ws.onmessage\<close> checks no flag, neither at its entry nor after
  its \<^verbatim>\<open>await\<close>: when the stop runs while a handler waits for
  \<^verbatim>\<open>event.data.arrayBuffer()\<close>, the continuation plays the clip after the stop.
\<close>

theorem playback_after_stop:
  "played (run [Start, MicrophoneGranted 0 48000, SocketOpened 0,
        SocketBlob 0 [1, 2], Stop] initial) = [] \<and>
   played (run [Start, MicrophoneGranted 0 48000, SocketOpened 0,
        SocketBlob 0 [1, 2], Stop, BlobRead 0] initial) =
     [wavHeader 2 24000 @ concat (map bytes16 [1, 2])]"
proof -
  let ?s = "run [Start, MicrophoneGranted 0 48000, SocketOpened 0,
        SocketBlob 0 [1, 2], Stop] initial"
  have "run [Start, MicrophoneGranted 0 48000, SocketOpened 0,
        SocketBlob 0 [1, 2], Stop, BlobRead 0] initial = blobRead 0 ?s"
    by simp
  moreover have "played (blobRead 0 ?s) = [wavHeader 2 24000 @ concat (map bytes16 [1, 2])]"
    by (simp only: blob_before_stop) (simp add: blobRead_def encodeWAV_eq numeral_2_eq_2)
  moreover have "played ?s = []"
    by (simp only: blob_before_stop) simp
  ultimately show ?thesis by simp
qed

subsection \<open>No audio frame after a stop\<close>

lemma map_update_same:
  "f v = f (xs ! k) \<Longrightarrow> map f (xs[k := v]) = map f xs"
  by (cases "k < length xs") (simp_all add: map_update list_update_beyond list_update_same_conv)

lemma same_sockets:
  assumes "sockets s' = sockets s" and "wsRef s' = wsRef s" and "refSocketClosing s"
  shows "refSocketClosing s' \<and> audioFramesSent s' = audioFramesSent s"
  using assms by (simp add: refSocketClosing_def audioFramesSent_def split: option.splits)

lemma stop_closes_ref_socket:
  "\<forall>k. wsRef s = Some k \<longrightarrow> k < length (sockets s) \<Longrightarrow>
   refSocketClosing (snd (stopVoiceRecording s))"
  by (cases "wsRef s")
     (auto simp add: refSocketClosing_def snd_stopVoiceRecording intro: ready_state.exhaust)

lemma stop_sends_nothing: "audioFramesSent (snd (stopVoiceRecording s)) = audioFramesSent s"
  by (cases "wsRef s")
     (simp_all add: audioFramesSent_def snd_stopVoiceRecording map_update_same)


lemma tasks_keep_sockets:
  "sockets (microphoneGranted c rate s) = sockets s \<and> wsRef (microphoneGranted c rate s) = wsRef s"
  "sockets (microphoneDenied c s) = sockets s \<and> wsRef (microphoneDenied c s) = wsRef s"
  "sockets (socketBlob k samples s) = sockets s \<and> wsRef (socketBlob k samples s) = wsRef s"
  "sockets (socketText k b s) = sockets s \<and> wsRef (socketText k b s) = wsRef s"
  "sockets (blobRead r s) = sockets s \<and> wsRef (blobRead r s) = wsRef s"
  by (simp_all add: microphoneGranted_def microphoneDenied_def
        socketBlob_def socketText_def blobRead_def split: option.splits)

lemma step_keeps_closing:
  assumes "t \<noteq> Start" and "refSocketClosing s"
  shows "refSocketClosing (step t s) \<and> audioFramesSent (step t s) = audioFramesSent s"
proof (cases t)
  case Start
  with assms show ?thesis by simp
next
  case Stop
  have "\<forall>k. wsRef s = Some k \<longrightarrow> k < length (sockets s)"
    using assms(2) by (auto simp add: refSocketClosing_def)
  then have "refSocketClosing (snd (stopVoiceRecording s))"
    by (rule stop_closes_ref_socket)
  then show ?thesis
    using Stop by (simp add: stop_sends_nothing)
next
  case (MicrophoneGranted c rate)
  then show ?thesis
    using assms(2) by (simp only: step.simps) (rule same_sockets; simp add: tasks_keep_sockets)
next
  case (MicrophoneDenied c)
  then show ?thesis
    using assms(2) by (simp only: step.simps) (rule same_sockets; simp add: tasks_keep_sockets)
next
  case (SocketOpened k)
  show ?thesis
  proof (cases "k < length (sockets s) \<and> readyState (sockets s ! k) = CONNECTING")
    case False
    then have "socketOpened k s = s" by (auto simp add: socketOpened_def)
    then show ?thesis using SocketOpened assms(2) by simp
  next
    case True
    then have ne: "wsRef s \<noteq> Some k"
      using assms(2) by (auto simp add: refSocketClosing_def)
    have sk: "sockets (socketOpened k s) =
        (sockets s)[k := (sockets s ! k)\<lparr>readyState := OPEN,
                            outbox := outbox (sockets s ! k) @ [Setup]\<rparr>]"
      using True by (simp add: socketOpened_def send_def)
    have wr: "wsRef (socketOpened k s) = wsRef s"
      using True by (simp add: socketOpened_def send_def)
    have "refSocketClosing (socketOpened k s)"
      using assms(2) ne by (auto simp add: refSocketClosing_def sk wr split: option.splits)
    moreover have "audioFramesSent (socketOpened k s) = audioFramesSent s"
      by (simp add: audioFramesSent_def sk map_update_same)
    ultimately show ?thesis using SocketOpened by simp
  qed
next
  case (SocketClosed k)
  show ?thesis
  proof (cases "k < length (sockets s)")
    case False
    then have "socketClosed k s = s" by (simp add: socketClosed_def)
    then show ?thesis using SocketClosed assms(2) by simp
  next
    case True
    have sk: "sockets (socketClosed k s) = (sockets s)[k := (sockets s ! k)\<lparr>readyState := CLOSED\<rparr>]"
      using True by (simp add: socketClosed_def)
    have wr: "wsRef (socketClosed k s) = wsRef s"
      using True by (simp add: socketClosed_def)
    have "refSocketClosing (socketClosed k s)"
      using assms(2) True by (auto simp add: refSocketClosing_def sk wr nth_list_update split: option.splits if_splits)
    moreover have "audioFramesSent (socketClosed k s) = audioFramesSent s"
      by (simp add: audioFramesSent_def sk map_update_same)
    ultimately show ?thesis using SocketClosed by simp
  qed
next
  case (SocketBlob k samples)
  then show ?thesis
    using assms(2) by (simp only: step.simps) (rule same_sockets; simp add: tasks_keep_sockets)
next
  case (SocketText k b)
  then show ?thesis
    using assms(2) by (simp only: step.simps) (rule same_sockets; simp add: tasks_keep_sockets)
next
  case (BlobRead r)
  then show ?thesis
    using assms(2) by (simp only: step.simps) (rule same_sockets; simp add: tasks_keep_sockets)
next
  case (AudioFrame w floatSamples)
  have "\<forall>k. wsRef s = Some k \<longrightarrow> readyState (sockets s ! k) \<noteq> OPEN"
    using assms(2) by (auto simp add: refSocketClosing_def)
  then have "audioFrame w floatSamples s = s" by (rule audioFrame_dropped)
  then show ?thesis using AudioFrame assms(2) by simp
qed

lemma run_keeps_closing:
  "Start \<notin> set ts \<Longrightarrow> refSocketClosing s \<Longrightarrow> audioFramesSent (run ts s) = audioFramesSent s"
proof (induction ts arbitrary: s)
  case Nil
  then show ?case by simp
next
  case (Cons t ts)
  then have t: "t \<noteq> Start" and ts: "Start \<notin> set ts" by auto
  from step_keeps_closing [OF t Cons.prems(2)]
  have "refSocketClosing (step t s)" and "audioFramesSent (step t s) = audioFramesSent s"
    by simp_all
  with Cons.IH [OF ts, of "step t s"] show ?case by simp
qed


lemma run_append: "run (ts @ us) s = run us (run ts s)"
  by (induction ts arbitrary: s) simp_all

lemma step_ref_valid:
  assumes "\<forall>k. wsRef s = Some k \<longrightarrow> k < length (sockets s)"
  shows "\<forall>k. wsRef (step t s) = Some k \<longrightarrow> k < length (sockets (step t s))"
proof (cases t)
  case Start
  then show ?thesis by (simp add: startVoiceRecording_def)
next
  case Stop
  then show ?thesis
    using assms by (auto simp add: snd_stopVoiceRecording split: option.splits)
next
  case (SocketOpened k)
  then show ?thesis using assms by (simp add: socketOpened_def send_def)
next
  case (SocketClosed k)
  then show ?thesis using assms by (simp add: socketClosed_def)
next
  case (AudioFrame w floatSamples)
  then show ?thesis
    using assms by (auto simp add: audioFrame_def send_def Let_def split: option.splits)
qed (use assms in \<open>simp_all add: tasks_keep_sockets\<close>)

lemma run_ref_valid:
  assumes "\<forall>k. wsRef s = Some k \<longrightarrow> k < length (sockets s)"
  shows "\<forall>k. wsRef (run ts s) = Some k \<longrightarrow> k < length (sockets (run ts s))"
proof (induction ts rule: rev_induct)
  case Nil
  then show ?case using assms by simp
next
  case (snoc t ts)
  then show ?case
    using step_ref_valid [of "run ts s" t] by (simp add: run_append)
qed

text \<open>
  The outbound half of the guarantee after a stop holds in every interleaving, from
  the initial state and from every other state in which \<^verbatim>\<open>wsRef\<close> is \<^verbatim>\<open>null\<close> or
  holds a socket that exists: the tasks after a stop send no audio frame on any
  socket, as long as none of them is a new start. The stop leaves the socket of
  \<^verbatim>\<open>wsRef\<close> closing, and the audio callback sends on no other socket.
\<close>

lemma no_audio_frame_after_stop:
  assumes "Start \<notin> set after"
    and "\<forall>k. wsRef s = Some k \<longrightarrow> k < length (sockets s)"
  shows "audioFramesSent (run (before @ Stop # after) s) =
         audioFramesSent (run before s)"
proof -
  let ?s = "run before s"
  have "\<forall>k. wsRef ?s = Some k \<longrightarrow> k < length (sockets ?s)"
    using assms(2) by (rule run_ref_valid)
  then have "refSocketClosing (snd (stopVoiceRecording ?s))"
    by (rule stop_closes_ref_socket)
  then have "audioFramesSent (run after (snd (stopVoiceRecording ?s))) =
             audioFramesSent (snd (stopVoiceRecording ?s))"
    using assms(1) by (intro run_keeps_closing)
  then show ?thesis by (simp add: run_append stop_sends_nothing)
qed

text \<open>
  No run from the initial state creates a worklet node: the handler
  \<^verbatim>\<open>port.onmessage\<close> is installed on none, and no audio frame is ever sent.
\<close>

lemma step_no_worklet:
  assumes "worklets s = [] \<and> workletNodeRef s = None"
  shows "worklets (step t s) = [] \<and> workletNodeRef (step t s) = None"
  using assms
  by (cases t)
     (simp_all add: task_defs snd_stopVoiceRecording Let_def split: option.splits)

lemma run_no_worklet:
  "worklets (run ts initial) = [] \<and> workletNodeRef (run ts initial) = None"
proof (induction ts rule: rev_induct)
  case Nil
  then show ?case by (simp add: initial_def)
next
  case (snoc t ts)
  then show ?case
    using step_no_worklet [of "run ts initial" t] by (simp add: run_append)
qed

end
